theory Spec2Isabelle
  imports Main "HOL-Library.Multiset"
begin

section \<open>Configuration\<close>

text \<open>
  The module constants of \<^verbatim>\<open>main.py\<close>: the number of result pages fetched per query and
  the number of attempts made for one page.
\<close>

definition PAGES :: nat where
  "PAGES = 5"

definition RETRIES :: nat where
  "RETRIES = 3"

section \<open>Fetching one page\<close>

text \<open>
  Python strings are modelled as \<open>string\<close>; a \<open>char\<close> stands for the code point of the
  same number (code points below 256).

  Exceptions are values. All exceptions below are subclasses of Python's \<^verbatim>\<open>Exception\<close>,
  the class that \<^verbatim>\<open>fetch_page\<close> catches and that \<^verbatim>\<open>scrape_query\<close> tests for.
  Cancellation, which is not an \<^verbatim>\<open>Exception\<close>, and a failure to create or to close the
  connector of an attempt, both outside the \<^verbatim>\<open>try\<close> block, are not part of the model of
  \<^verbatim>\<open>fetch_page\<close>.
\<close>

datatype py_exception =
    ClientError | TimeoutError | PayloadError | OSError | ValueError
  | ParserRejectedMarkup | UnicodeEncodeError

text \<open>
  What the network does on one attempt. \<^verbatim>\<open>session.get\<close> either raises (a transport
  error or a timeout) or yields a response with a status; the body is read afterwards by
  \<^verbatim>\<open>response.text()\<close>, inside the same \<^verbatim>\<open>try\<close>, and that read can raise as well. The
  body is only looked at when the status is 200.
\<close>

datatype body = Body string | BodyRaises py_exception

datatype attempt = Response nat body | GetRaises py_exception

text \<open>
  The observable effects of \<^verbatim>\<open>fetch_page\<close>, in program order: a request issued with its
  URL and User-Agent header, the release of the attempt's connector (the \<^verbatim>\<open>finally\<close>
  clause), the back-off sleep, and the log lines by level.
\<close>

datatype event = Get string string | Close | Sleep nat | LogDebug | LogError | LogInfo

text \<open>
  The scraper object. \<^verbatim>\<open>self.ua.random\<close> picks a User-Agent at random on every read: the
  generator is the sequence \<open>ua\<close> of values it will yield and the number \<open>drawn\<close> of values
  read so far.
\<close>

record EcosiaScraper =
  proxy :: string
  ua :: "nat \<Rightarrow> string"
  drawn :: nat

definition ua_random :: "EcosiaScraper \<Rightarrow> string \<times> EcosiaScraper" where
  "ua_random s = (ua s (drawn s), s\<lparr>drawn := Suc (drawn s)\<rparr>)"

text \<open>
  One pass through the body of the \<^verbatim>\<open>for\<close> loop up to the \<^verbatim>\<open>finally\<close> clause: \<open>Some html\<close>
  when the pass executes \<^verbatim>\<open>return html\<close>, \<open>None\<close> when it falls through (non-200 status,
  logged) or lands in the \<^verbatim>\<open>except\<close> clause (logged).
\<close>

fun try_once :: "attempt \<Rightarrow> string \<Rightarrow> string \<Rightarrow> string option \<times> event list" where
  "try_once (Response status b) url hdr =
     (if status = 200 then
        (case b of
           Body html \<Rightarrow> (Some html, [Get url hdr, LogDebug, Close])
         | BodyRaises e \<Rightarrow> (None, [Get url hdr, LogError, Close]))
      else (None, [Get url hdr, LogError, Close]))"
| "try_once (GetRaises e) url hdr = (None, [Get url hdr, LogError, Close])"

text \<open>
  The loop \<^verbatim>\<open>for attempt in range(RETRIES)\<close>, over the attempt numbers still to run;
  \<open>net k\<close> is what the network does on attempt \<open>k\<close>. After the loop the failure is logged
  and \<^verbatim>\<open>None\<close> is returned.
\<close>

fun retry_loop :: "(nat \<Rightarrow> attempt) \<Rightarrow> string \<Rightarrow> string \<Rightarrow> nat list \<Rightarrow> string option \<times> event list" where
  "retry_loop net url hdr [] = (None, [LogError])"
| "retry_loop net url hdr (k # ks) =
     (case try_once (net k) url hdr of
        (Some html, evs) \<Rightarrow> (Some html, evs)
      | (None, evs) \<Rightarrow>
          (let pause = (if k < RETRIES - 1 then [Sleep 2] else []);
               (r, rest) = retry_loop net url hdr ks
           in (r, evs @ pause @ rest)))"

text \<open>
  \<^verbatim>\<open>fetch_page\<close>: the header is built once, before the loop, from one read of
  \<^verbatim>\<open>self.ua.random\<close>. The result is the returned content (\<open>None\<close> for Python's \<^verbatim>\<open>None\<close>),
  the trace of effects and the scraper with its generator advanced.
\<close>

definition fetch_page :: "(nat \<Rightarrow> attempt) \<Rightarrow> EcosiaScraper \<Rightarrow> string \<Rightarrow> (string option \<times> event list) \<times> EcosiaScraper" where
  "fetch_page net s url =
     (let (hdr, s') = ua_random s;
          (r, evs) = retry_loop net url hdr [0..<RETRIES]
      in ((r, LogDebug # evs), s'))"

text \<open>Reading a trace: the headers of the requests issued, in order, and their number.\<close>

fun headers_sent :: "event list \<Rightarrow> string list" where
  "headers_sent [] = []"
| "headers_sent (Get url hdr # evs) = hdr # headers_sent evs"
| "headers_sent (_ # evs) = headers_sent evs"

definition attempts_made :: "event list \<Rightarrow> nat" where
  "attempts_made evs = length (headers_sent evs)"

text \<open>
  An attempt succeeds when the response has status 200 and its body is read without an
  exception; \<open>clean_body\<close> is the content it then delivers.
\<close>

fun clean_body :: "attempt \<Rightarrow> string option" where
  "clean_body (Response status (Body html)) = (if status = 200 then Some html else None)"
| "clean_body (Response status (BodyRaises e)) = None"
| "clean_body (GetRaises e) = None"

fun status_of :: "attempt \<Rightarrow> nat option" where
  "status_of (Response status b) = Some status"
| "status_of (GetRaises e) = None"

section \<open>String operations of Python\<close>

text \<open>\<^verbatim>\<open>s.startswith(p)\<close> and \<^verbatim>\<open>sub in s\<close>.\<close>

fun startswith :: "string \<Rightarrow> string \<Rightarrow> bool" where
  "startswith s [] = True"
| "startswith [] (p # ps) = False"
| "startswith (c # s) (p # ps) = (c = p \<and> startswith s ps)"

fun contains :: "string \<Rightarrow> string \<Rightarrow> bool" where
  "contains [] sub = (sub = [])"
| "contains (c # s) sub = (startswith (c # s) sub \<or> contains s sub)"

text \<open>
  \<^verbatim>\<open>s.lower()\<close> on code points below 256: the ASCII capitals and the Latin-1 capitals
  (192 to 222 without the multiplication sign 215) move up by 32, every other character
  stays.
\<close>

definition lower_char :: "char \<Rightarrow> char" where
  "lower_char c =
     (let n = (of_char c :: nat)
      in if (65 \<le> n \<and> n \<le> 90) \<or> (192 \<le> n \<and> n \<le> 222 \<and> n \<noteq> 215)
         then char_of (n + 32) else c)"

definition lower :: "string \<Rightarrow> string" where
  "lower s = map lower_char s"

text \<open>\<^verbatim>\<open>c.isspace()\<close>, \<^verbatim>\<open>s.strip()\<close> and \<^verbatim>\<open>c.isalnum()\<close> on code points below 256.\<close>

definition isspace :: "char \<Rightarrow> bool" where
  "isspace c =
     (let n = (of_char c :: nat)
      in (9 \<le> n \<and> n \<le> 13) \<or> (28 \<le> n \<and> n \<le> 32) \<or> n = 133 \<or> n = 160)"

definition strip :: "string \<Rightarrow> string" where
  "strip s = rev (dropWhile isspace (rev (dropWhile isspace s)))"

definition isalnum :: "char \<Rightarrow> bool" where
  "isalnum c =
     (let n = (of_char c :: nat)
      in (48 \<le> n \<and> n \<le> 57) \<or> (65 \<le> n \<and> n \<le> 90) \<or> (97 \<le> n \<and> n \<le> 122)
         \<or> n = 170 \<or> n = 178 \<or> n = 179 \<or> n = 181 \<or> n = 185 \<or> n = 186
         \<or> (188 \<le> n \<and> n \<le> 190) \<or> (192 \<le> n \<and> n \<le> 214)
         \<or> (216 \<le> n \<and> n \<le> 246) \<or> (248 \<le> n \<and> n \<le> 255))"

text \<open>
  \<^verbatim>\<open>s.replace(old, new)\<close>: the occurrences of \<open>old\<close> are replaced from left to right
  without overlap; an empty \<open>old\<close> matches before every character and at the end.
\<close>

function replace :: "string \<Rightarrow> string \<Rightarrow> string \<Rightarrow> string" where
  "replace [] old new = (if old = [] then new else [])"
| "replace (c # s) old new =
     (if old = [] then new @ c # replace s old new
      else if startswith (c # s) old then new @ replace (drop (length old) (c # s)) old new
      else c # replace s old new)"
  by pat_completeness auto
termination
  by (relation "measure (\<lambda>(s, old, new). length s)") auto

text \<open>The decimal digits of a number, as the f-string prints \<^verbatim>\<open>{page-1}\<close>.\<close>

fun str_of_nat :: "nat \<Rightarrow> string" where
  "str_of_nat n =
     (if n < 10 then [char_of (48 + n)]
      else str_of_nat (n div 10) @ [char_of (48 + n mod 10)])"

section \<open>Parsing one page\<close>

text \<open>
  The document tree that BeautifulSoup builds: text nodes and tags with a name, attributes
  and children. The value stored for \<^verbatim>\<open>class\<close> is the class list joined by single spaces,
  which is the string the selector is matched against; the class filter of the description
  looks for substrings without a space, so it accepts that string exactly when it accepts
  one of the classes.
\<close>

datatype node = Text string | Tag string "(string \<times> string) list" "node list"

text \<open>All nodes below a node, in document order.\<close>

fun descendants :: "node \<Rightarrow> node list"
  and descendants_list :: "node list \<Rightarrow> node list" where
  "descendants (Text t) = []"
| "descendants (Tag name attrs children) = descendants_list children"
| "descendants_list [] = []"
| "descendants_list (c # cs) = c # descendants c @ descendants_list cs"

text \<open>
  The library functions the parser relies on and whose code is not part of the repository,
  taken as parameters: \<^verbatim>\<open>urllib.parse.quote\<close>, the tree that
  \<^verbatim>\<open>BeautifulSoup(html, 'html.parser')\<close> builds (its top-level nodes), and
  \<^verbatim>\<open>urlparse(link).netloc\<close>. The last two can raise: \<^verbatim>\<open>urlparse\<close> raises
  \<^verbatim>\<open>ValueError\<close> on a link whose host has an unmatched bracket, such as \<^verbatim>\<open>http://[\<close>,
  and the parser can reject markup. \<^verbatim>\<open>parse_page\<close> calls both outside any \<^verbatim>\<open>try\<close>.
\<close>

record libs =
  quote :: "string \<Rightarrow> string"
  soup :: "string \<Rightarrow> py_exception + node list"
  netloc :: "string \<Rightarrow> py_exception + string"

text \<open>
  The selector \<^verbatim>\<open>div:not([class*="ad"]):not([class*="cookie"])\<close>: a \<^verbatim>\<open>div\<close> whose class
  attribute, if it has one, contains neither substring.
\<close>

definition attr_contains :: "(string \<times> string) list \<Rightarrow> string \<Rightarrow> string \<Rightarrow> bool" where
  "attr_contains attrs name sub =
     (case map_of attrs name of None \<Rightarrow> False | Some v \<Rightarrow> contains v sub)"

fun is_container :: "node \<Rightarrow> bool" where
  "is_container (Text t) = False"
| "is_container (Tag name attrs children) =
     (name = ''div'' \<and> \<not> attr_contains attrs ''class'' ''ad''
      \<and> \<not> attr_contains attrs ''class'' ''cookie'')"

definition select_containers :: "node list \<Rightarrow> node list" where
  "select_containers nodes = filter is_container (descendants_list nodes)"

text \<open>
  The filter of the sponsored check, \<^verbatim>\<open>lambda t: t and 'provided by Google' in t.lower()\<close>,
  and \<^verbatim>\<open>result.find(text=...)\<close>: the first text below the node that passes the filter.
\<close>

definition is_sponsored_text :: "string \<Rightarrow> bool" where
  "is_sponsored_text t = (t \<noteq> [] \<and> contains (lower t) ''provided by Google'')"

fun text_of :: "node \<Rightarrow> string option" where
  "text_of (Text t) = Some t"
| "text_of (Tag name attrs children) = None"

definition find_text :: "(string \<Rightarrow> bool) \<Rightarrow> node \<Rightarrow> string option" where
  "find_text f n = List.find f (List.map_filter text_of (descendants n))"

text \<open>
  \<^verbatim>\<open>result.find('a', href=True)\<close>: the first tag \<^verbatim>\<open>a\<close> below the node that has an
  \<^verbatim>\<open>href\<close> attribute.
\<close>

fun is_link :: "node \<Rightarrow> bool" where
  "is_link (Text t) = False"
| "is_link (Tag name attrs children) = (name = ''a'' \<and> map_of attrs ''href'' \<noteq> None)"

fun href_of :: "node \<Rightarrow> string" where
  "href_of (Text t) = []"
| "href_of (Tag name attrs children) =
     (case map_of attrs ''href'' of None \<Rightarrow> [] | Some v \<Rightarrow> v)"

text \<open>
  The class filter of the description,
  \<^verbatim>\<open>lambda x: x and ('description' in x.lower() or 'snippet' in x.lower() or 'result' in x.lower())\<close>,
  and \<^verbatim>\<open>result.find('div', class_=...)\<close>. A tag without a class attribute passes
  \<^verbatim>\<open>None\<close> to the filter, which rejects it.
\<close>

definition is_description_class :: "string \<Rightarrow> bool" where
  "is_description_class x =
     (x \<noteq> [] \<and> (contains (lower x) ''description'' \<or> contains (lower x) ''snippet''
        \<or> contains (lower x) ''result''))"

fun is_description :: "node \<Rightarrow> bool" where
  "is_description (Text t) = False"
| "is_description (Tag name attrs children) =
     (name = ''div'' \<and>
      (case map_of attrs ''class'' of None \<Rightarrow> False | Some x \<Rightarrow> is_description_class x))"

text \<open>\<^verbatim>\<open>tag.text\<close>: the texts below the tag, concatenated.\<close>

definition text_content :: "node \<Rightarrow> string" where
  "text_content n = concat (List.map_filter text_of (descendants n))"

record result_record =
  title :: string
  link :: string
  description :: string
  favicon_path :: string
  keyword :: string

record page_result =
  page :: nat
  results :: "result_record list"

text \<open>
  The body of the loop over the containers: \<open>Inr None\<close> where the source executes
  \<^verbatim>\<open>continue\<close>, the appended record otherwise, and \<open>Inl\<close> the exception that
  \<^verbatim>\<open>urlparse\<close> raises, which nothing in the loop catches.
\<close>

definition container_record :: "libs \<Rightarrow> string \<Rightarrow> node \<Rightarrow> py_exception + result_record option" where
  "container_record L kw result =
     (if find_text is_sponsored_text result \<noteq> None then Inr None
      else
        (case List.find is_link (descendants result) of
           None \<Rightarrow> Inr None
         | Some link_tag \<Rightarrow>
             if \<not> startswith (href_of link_tag) ''http'' then Inr None
             else
               (case netloc L (href_of link_tag) of
                  Inl e \<Rightarrow> Inl e
                | Inr domain \<Rightarrow>
                    Inr (Some
                      \<lparr>title =
                         (if strip (text_content link_tag) \<noteq> [] then strip (text_content link_tag)
                          else ''No title''),
                       link = href_of link_tag,
                       description =
                         (case List.find is_description (descendants result) of
                            None \<Rightarrow> []
                          | Some description_tag \<Rightarrow> strip (text_content description_tag)),
                       favicon_path = ''https://www.google.com/s2/favicons?domain='' @ domain,
                       keyword = kw\<rparr>))))"

text \<open>
  The loop over the selected containers, in document order: it ends with the first
  exception, otherwise with the list of the appended records.
\<close>

fun collect :: "libs \<Rightarrow> string \<Rightarrow> node list \<Rightarrow> py_exception + result_record list" where
  "collect L kw [] = Inr []"
| "collect L kw (result # rest) =
     (case container_record L kw result of
        Inl e \<Rightarrow> Inl e
      | Inr r \<Rightarrow>
          (case collect L kw rest of
             Inl e \<Rightarrow> Inl e
           | Inr rs \<Rightarrow> Inr (case r of None \<Rightarrow> rs | Some x \<Rightarrow> x # rs)))"

text \<open>
  \<^verbatim>\<open>parse_page\<close>: absent content gives the page's result with no records, without any
  library call; otherwise the records of the containers in document order, or the
  exception raised on the way. Its log lines are not part of the result.
\<close>

definition parse_page :: "libs \<Rightarrow> string option \<Rightarrow> string \<Rightarrow> nat \<Rightarrow> py_exception + page_result" where
  "parse_page L html kw pg =
     (case html of
        None \<Rightarrow> Inr \<lparr>page = pg, results = []\<rparr>
      | Some h \<Rightarrow>
          (case soup L h of
             Inl e \<Rightarrow> Inl e
           | Inr nodes \<Rightarrow>
               (case collect L kw (select_containers nodes) of
                  Inl e \<Rightarrow> Inl e
                | Inr rs \<Rightarrow> Inr \<lparr>page = pg, results = rs\<rparr>)))"

section \<open>Scraping one query\<close>

text \<open>
  What awaiting a task gives under \<^verbatim>\<open>gather(..., return_exceptions=True)\<close>: the value the
  coroutine returned, or the exception it raised.
\<close>

datatype 'a outcome = Returned 'a | Raised py_exception

text \<open>
  \<^verbatim>\<open>asyncio.gather\<close>: every task has a slot at its own position; the tasks complete in the
  order \<open>sched\<close> (a list of task positions) and each completion fills the task's slot. The
  await returns the slots once all are filled; when some task never completes it does not
  return, which is the value \<open>None\<close>.
\<close>

fun complete :: "'a list \<Rightarrow> nat list \<Rightarrow> 'a option list \<Rightarrow> 'a option list" where
  "complete outs [] slots = slots"
| "complete outs (i # sched) slots =
     complete outs sched (if i < length outs then slots[i := Some (outs ! i)] else slots)"

definition gather :: "'a list \<Rightarrow> nat list \<Rightarrow> 'a list option" where
  "gather outs sched = those (complete outs sched (replicate (length outs) None))"

text \<open>The URL of a page: page 1 has no offset, page \<open>n\<close> has the offset \<open>n - 1\<close>.\<close>

definition page_url :: "libs \<Rightarrow> string \<Rightarrow> nat \<Rightarrow> string" where
  "page_url L query pg =
     (if pg = 1 then ''https://www.ecosia.org/search?q='' @ quote L query
      else ''https://www.ecosia.org/search?q='' @ quote L query @ ''&p='' @ str_of_nat (pg - 1))"

text \<open>
  The tasks are started in the order of their creation; \<open>fetch\<close> stands for
  \<^verbatim>\<open>self.fetch_page\<close> and threads the state of the scraper.
\<close>

fun run_tasks :: "(string \<Rightarrow> 's \<Rightarrow> 'a \<times> 's) \<Rightarrow> string list \<Rightarrow> 's \<Rightarrow> 'a list \<times> 's" where
  "run_tasks fetch [] s = ([], s)"
| "run_tasks fetch (url # urls) s =
     (let (r, s') = fetch url s; (rs, s'') = run_tasks fetch urls s' in (r # rs, s''))"

text \<open>
  The loop over \<^verbatim>\<open>enumerate(html_pages, start=1)\<close>, from the page number \<open>page_num\<close>
  on: an exception object among the gathered results is replaced by \<^verbatim>\<open>None\<close> before
  parsing. \<^verbatim>\<open>parse_page\<close> is called outside any \<^verbatim>\<open>try\<close>, so the first exception it raises
  ends the loop.
\<close>

fun content_of :: "string option outcome \<Rightarrow> string option" where
  "content_of (Raised e) = None"
| "content_of (Returned h) = h"

fun assemble :: "libs \<Rightarrow> string \<Rightarrow> nat \<Rightarrow> string option outcome list \<Rightarrow> py_exception + page_result list" where
  "assemble L query page_num [] = Inr []"
| "assemble L query page_num (html # html_pages) =
     (case parse_page L (content_of html) query page_num of
        Inl e \<Rightarrow> Inl e
      | Inr parsed \<Rightarrow>
          (case assemble L query (Suc page_num) html_pages of
             Inl e \<Rightarrow> Inl e
           | Inr structured_data \<Rightarrow> Inr (parsed # structured_data)))"

text \<open>
  \<^verbatim>\<open>scrape_query\<close>. The returned dictionary \<^verbatim>\<open>{query: structured_data}\<close> is the list of
  its items. The result is \<open>None\<close> when the await of the gather never returns, and
  otherwise the dictionary or the exception that leaves the coroutine, with the state of
  the scraper.
\<close>

type_synonym document = "(string \<times> page_result list) list"

definition scrape_query ::
  "(string \<Rightarrow> 's \<Rightarrow> string option outcome \<times> 's) \<Rightarrow> libs \<Rightarrow> nat list \<Rightarrow> 's \<Rightarrow> string
     \<Rightarrow> ((py_exception + document) \<times> 's) option" where
  "scrape_query fetch L sched s query =
     (let (tasks, s') = run_tasks fetch (map (page_url L query) [1..<PAGES + 1]) s
      in case gather tasks sched of
           None \<Rightarrow> None
         | Some html_pages \<Rightarrow>
             (case assemble L query 1 html_pages of
                Inl e \<Rightarrow> Some (Inl e, s')
              | Inr structured_data \<Rightarrow> Some (Inr [(query, structured_data)], s')))"

text \<open>
  The fetcher of the scraper itself: \<open>net url k\<close> is what the network does on attempt \<open>k\<close>
  for \<open>url\<close>. \<^verbatim>\<open>fetch_page\<close> returns a value on every path.
\<close>

definition fetch_task :: "(string \<Rightarrow> nat \<Rightarrow> attempt) \<Rightarrow> string \<Rightarrow> EcosiaScraper \<Rightarrow> string option outcome \<times> EcosiaScraper" where
  "fetch_task net url s = (let ((r, evs), s') = fetch_page (net url) s url in (Returned r, s'))"

section \<open>Running the batch\<close>

text \<open>
  The file name of a query, as \<^verbatim>\<open>process_query\<close> computes it:
  \<^verbatim>\<open>''.join(c for c in query if c.isalnum() or c in (' ', '_')).replace(' ', '_')\<close>
  followed by the extension.
\<close>

definition safe_query :: "string \<Rightarrow> string" where
  "safe_query query =
     replace (filter (\<lambda>c. isalnum c \<or> c \<in> set [CHR '' '', CHR ''_'']) query) '' '' ''_''"

definition filename_of :: "string \<Rightarrow> string" where
  "filename_of query = safe_query query @ ''.json''"

text \<open>
  The same identifier in the words of the specification: retain the alphanumerics, spaces
  and underscores, and write every space as an underscore. The alphanumeric and space
  content of a query is what remains of it without any other character.
\<close>

definition retained :: "char \<Rightarrow> bool" where
  "retained c = (isalnum c \<or> c = CHR '' '' \<or> c = CHR ''_'')"

definition sanitized :: "string \<Rightarrow> string" where
  "sanitized query = map (\<lambda>c. if c = CHR '' '' then CHR ''_'' else c) (filter retained query)"

definition alnum_space_content :: "string \<Rightarrow> string" where
  "alnum_space_content query = filter (\<lambda>c. isalnum c \<or> c = CHR '' '') query"

text \<open>
  The world the batch acts on: the scraper and the files written so far, by name. A file
  holds the dumped dictionary, or what is left of it when the dump was interrupted. The
  environment fixes what is outside the program: the network, the libraries, the order in
  which the page fetches of a query complete, and what happens when a file of a given
  name is written.
\<close>

datatype file_content = Complete document | Truncated

datatype write_outcome = Writes | OpenRaises py_exception | DumpRaises py_exception

record world =
  scraper :: EcosiaScraper
  files :: "string \<rightharpoonup> file_content"

record env =
  network :: "string \<Rightarrow> nat \<Rightarrow> attempt"
  library :: libs
  page_sched :: "string \<Rightarrow> nat list"
  sink :: "string \<Rightarrow> write_outcome"

text \<open>
  \<^verbatim>\<open>ResultSaver.save_to_json\<close>. When \<^verbatim>\<open>open(filename, 'w')\<close> raises, no file is touched.
  Once the file is open it has been created or truncated; \<^verbatim>\<open>json.dump\<close> then writes the
  data, or raises and leaves the file incomplete. The result is the exception raised, if
  any, and the files.
\<close>

definition save_to_json ::
  "(string \<Rightarrow> write_outcome) \<Rightarrow> (string \<rightharpoonup> file_content) \<Rightarrow> document \<Rightarrow> string
     \<Rightarrow> py_exception option \<times> (string \<rightharpoonup> file_content)" where
  "save_to_json out fs data filename =
     (case out filename of
        OpenRaises e \<Rightarrow> (Some e, fs)
      | DumpRaises e \<Rightarrow> (Some e, fs(filename \<mapsto> Truncated))
      | Writes \<Rightarrow> (None, fs(filename \<mapsto> Complete data)))"

text \<open>
  \<^verbatim>\<open>process_query\<close>: the scrape, then the file name, then the save. The outer \<open>None\<close> is a
  task that never finishes; otherwise the result is the exception that left the coroutine,
  if any, and the world it leaves behind. Nothing in the coroutine catches an exception,
  neither one raised by the scrape nor one raised by the save.
\<close>

definition process_query :: "env \<Rightarrow> world \<Rightarrow> string \<Rightarrow> (py_exception option \<times> world) option" where
  "process_query E w query =
     (case scrape_query (fetch_task (network E)) (library E) (page_sched E query) (scraper w) query of
        None \<Rightarrow> None
      | Some (Inl e, s') \<Rightarrow> Some (Some e, w\<lparr>scraper := s'\<rparr>)
      | Some (Inr data, s') \<Rightarrow>
          (case save_to_json (sink E) (files w) data (filename_of query) of
             (r, fs) \<Rightarrow> Some (r, \<lparr>scraper = s', files = fs\<rparr>)))"

text \<open>
  The query tasks that still run to their end after an exception has left one of them:
  \<^verbatim>\<open>asyncio.gather\<close> does not cancel the other tasks, so a task that is ready to go on
  processes and saves its query; an exception of its own is retrieved by nobody.
\<close>

fun settle :: "env \<Rightarrow> string list \<Rightarrow> nat list \<Rightarrow> nat list \<Rightarrow> world \<Rightarrow> world" where
  "settle E queries [] finished w = w"
| "settle E queries (i # order) finished w =
     (if i < length queries \<and> i \<notin> set finished then
        (case process_query E w (queries ! i) of
           None \<Rightarrow> settle E queries order finished w
         | Some (r, w') \<Rightarrow> settle E queries order (i # finished) w')
      else settle E queries order finished w)"

text \<open>
  \<^verbatim>\<open>await asyncio.gather(*tasks)\<close> in \<^verbatim>\<open>main\<close>, without \<^verbatim>\<open>return_exceptions\<close>: the query
  tasks finish in the order \<open>order\<close> (positions in the list of queries), and the first
  exception that leaves a task is handed to \<^verbatim>\<open>main\<close>. Until \<^verbatim>\<open>main\<close> has ended with it
  and \<^verbatim>\<open>asyncio.run\<close> has cancelled what is pending, the event loop goes on running the
  tasks that are ready: the next \<open>grace\<close> tasks of the order still finish, the ones after
  them are cancelled. How many finish depends on the timing of the network, so \<open>grace\<close>
  belongs to the schedule. \<open>finished\<close> are the tasks that have completed.
\<close>

fun run_queries ::
  "env \<Rightarrow> string list \<Rightarrow> nat \<Rightarrow> nat list \<Rightarrow> nat list \<Rightarrow> world
     \<Rightarrow> py_exception option \<times> nat list \<times> world" where
  "run_queries E queries grace [] finished w = (None, finished, w)"
| "run_queries E queries grace (i # order) finished w =
     (if i < length queries \<and> i \<notin> set finished then
        (case process_query E w (queries ! i) of
           None \<Rightarrow> run_queries E queries grace order finished w
         | Some (Some e, w') \<Rightarrow>
             (Some e, i # finished, settle E queries (take grace order) (i # finished) w')
         | Some (None, w') \<Rightarrow> run_queries E queries grace order (i # finished) w')
      else run_queries E queries grace order finished w)"

text \<open>
  \<^verbatim>\<open>main\<close>, from the list of queries read from the input file. It has no handler around
  the gather: an exception raised there leaves \<^verbatim>\<open>main\<close>. Without an exception \<^verbatim>\<open>main\<close>
  returns once every task has finished, and does not return (\<open>None\<close>) if one never does.
\<close>

definition main ::
  "env \<Rightarrow> string list \<Rightarrow> nat list \<Rightarrow> nat \<Rightarrow> world \<Rightarrow> (py_exception option \<times> world) option" where
  "main E queries order grace w =
     (case run_queries E queries grace order [] w of
        (Some e, finished, w') \<Rightarrow> Some (Some e, w')
      | (None, finished, w') \<Rightarrow>
          if list_all (\<lambda>i. i \<in> set finished) [0..<length queries] then Some (None, w') else None)"

section \<open>The two limiters\<close>

text \<open>
  Where a task stands. A query task waits for \<^verbatim>\<open>query_sem\<close>, is inside
  \<^verbatim>\<open>async with query_sem\<close>, or has left it. The fetch task of a page is, in attempt \<open>k\<close>,
  before \<^verbatim>\<open>async with sem\<close>, inside it (the request is in flight), or asleep between two
  attempts; or it has returned.
\<close>

datatype qloc = QWaiting | QActive | QFinished

datatype floc = FReady nat | FInFlight nat | FBackoff nat | FReturned

fun in_flight :: "floc \<Rightarrow> bool" where
  "in_flight (FInFlight k) = True"
| "in_flight _ = False"

text \<open>
  The state of a run: the values of the two module-level semaphores (free slots) and the
  place of every task; query tasks by their position in the list of queries, fetch tasks
  by query and page position.
\<close>

record sys =
  sem :: nat
  query_sem :: nat
  qtask :: "nat \<Rightarrow> qloc"
  ftask :: "nat \<Rightarrow> nat \<Rightarrow> floc"

definition init :: sys where
  "init = \<lparr>sem = 10, query_sem = 3, qtask = (\<lambda>i. QWaiting), ftask = (\<lambda>i p. FReady 0)\<rparr>"

text \<open>
  The steps a run is made of, chosen by the event loop; a step that is not enabled gives
  \<open>None\<close>. Acquiring an \<^verbatim>\<open>asyncio.Semaphore\<close> is possible only while its value is
  positive and decrements it; leaving the \<^verbatim>\<open>async with\<close> block, on any path, increments
  it. A query enters \<^verbatim>\<open>async with query_sem\<close> and leaves it after its page fetches have
  returned (with its document saved or with an exception). A page fetch of a query that has
  entered acquires \<^verbatim>\<open>sem\<close> for one attempt and releases it when the attempt succeeds or
  fails; after a failure it sleeps and tries again while attempts remain. Cancelling a
  task takes it out of the block it is in.
\<close>

datatype action =
    Enter nat
  | Leave nat
  | Acquire nat nat
  | Succeed nat nat
  | Fail nat nat
  | Wake nat nat
  | CancelQuery nat
  | CancelFetch nat nat

fun step :: "nat \<Rightarrow> action \<Rightarrow> sys \<Rightarrow> sys option" where
  "step n (Enter i) s =
     (if i < n \<and> qtask s i = QWaiting \<and> 0 < query_sem s
      then Some (s\<lparr>query_sem := query_sem s - 1, qtask := (qtask s)(i := QActive)\<rparr>)
      else None)"
| "step n (Leave i) s =
     (if i < n \<and> qtask s i = QActive \<and> list_all (\<lambda>p. ftask s i p = FReturned) [0..<PAGES]
      then Some (s\<lparr>query_sem := query_sem s + 1, qtask := (qtask s)(i := QFinished)\<rparr>)
      else None)"
| "step n (Acquire i p) s =
     (case ftask s i p of
        FReady k \<Rightarrow>
          if i < n \<and> p < PAGES \<and> qtask s i = QActive \<and> 0 < sem s
          then Some (s\<lparr>sem := sem s - 1, ftask := (ftask s)(i := (ftask s i)(p := FInFlight k))\<rparr>)
          else None
      | _ \<Rightarrow> None)"
| "step n (Succeed i p) s =
     (case ftask s i p of
        FInFlight k \<Rightarrow>
          if i < n \<and> p < PAGES
          then Some (s\<lparr>sem := sem s + 1, ftask := (ftask s)(i := (ftask s i)(p := FReturned))\<rparr>)
          else None
      | _ \<Rightarrow> None)"
| "step n (Fail i p) s =
     (case ftask s i p of
        FInFlight k \<Rightarrow>
          if i < n \<and> p < PAGES
          then Some (s\<lparr>sem := sem s + 1,
                      ftask := (ftask s)(i := (ftask s i)
                                 (p := (if k < RETRIES - 1 then FBackoff k else FReturned)))\<rparr>)
          else None
      | _ \<Rightarrow> None)"
| "step n (Wake i p) s =
     (case ftask s i p of
        FBackoff k \<Rightarrow>
          if i < n \<and> p < PAGES
          then Some (s\<lparr>ftask := (ftask s)(i := (ftask s i)(p := FReady (Suc k)))\<rparr>)
          else None
      | _ \<Rightarrow> None)"
| "step n (CancelQuery i) s =
     (if i < n \<and> qtask s i = QWaiting
      then Some (s\<lparr>qtask := (qtask s)(i := QFinished)\<rparr>)
      else if i < n \<and> qtask s i = QActive
      then Some (s\<lparr>query_sem := query_sem s + 1, qtask := (qtask s)(i := QFinished)\<rparr>)
      else None)"
| "step n (CancelFetch i p) s =
     (if i < n \<and> p < PAGES then
        (case ftask s i p of
           FInFlight k \<Rightarrow>
             Some (s\<lparr>sem := sem s + 1, ftask := (ftask s)(i := (ftask s i)(p := FReturned))\<rparr>)
         | FReturned \<Rightarrow> None
         | _ \<Rightarrow> Some (s\<lparr>ftask := (ftask s)(i := (ftask s i)(p := FReturned))\<rparr>))
      else None)"

text \<open>A run is a sequence of steps, each enabled where it is taken.\<close>

fun run :: "nat \<Rightarrow> action list \<Rightarrow> sys \<Rightarrow> sys option" where
  "run n [] s = Some s"
| "run n (a # as) s = (case step n a s of None \<Rightarrow> None | Some s' \<Rightarrow> run n as s')"

text \<open>The queries being processed and the page fetches in flight, counted.\<close>

definition active_queries :: "nat \<Rightarrow> sys \<Rightarrow> nat" where
  "active_queries n s = length (filter (\<lambda>i. qtask s i = QActive) [0..<n])"

definition fetches_in_flight :: "nat \<Rightarrow> sys \<Rightarrow> nat" where
  "fetches_in_flight n s =
     length (filter (\<lambda>(i, p). in_flight (ftask s i p)) (List.product [0..<n] [0..<PAGES]))"

section \<open>Notions used by the properties\<close>

text \<open>
  The outcomes of the page tasks of a query, in page order, and the outcomes that leave a
  page without content: \<^verbatim>\<open>None\<close> returned after the retries, or an exception raised.
\<close>

definition page_outcomes ::
  "(string \<Rightarrow> 's \<Rightarrow> string option outcome \<times> 's) \<Rightarrow> libs \<Rightarrow> 's \<Rightarrow> string \<Rightarrow> string option outcome list" where
  "page_outcomes fetch L s query = fst (run_tasks fetch (map (page_url L query) [1..<PAGES + 1]) s)"

fun failed :: "string option outcome \<Rightarrow> bool" where
  "failed (Returned None) = True"
| "failed (Raised e) = True"
| "failed (Returned (Some html)) = False"

text \<open>Parsing what a page task delivered, under a page number, raises no exception.\<close>

definition parses :: "libs \<Rightarrow> string \<Rightarrow> nat \<Rightarrow> string option outcome \<Rightarrow> bool" where
  "parses L query pg out =
     (case parse_page L (content_of out) query pg of Inl e \<Rightarrow> False | Inr r \<Rightarrow> True)"

text \<open>
  Two readings taken from the specification, to be compared with the code. The first: some
  attempt of the allowed ones receives a response with status 200. The second: every
  attempt carries a header drawn for it, so that the headers sent are consecutive values of
  the generator and as many values are drawn as attempts are made.
\<close>

definition received_200 :: "(nat \<Rightarrow> attempt) \<Rightarrow> bool" where
  "received_200 net = list_ex (\<lambda>k. status_of (net k) = Some 200) [0..<RETRIES]"

definition fresh_header_per_attempt :: "(nat \<Rightarrow> attempt) \<Rightarrow> EcosiaScraper \<Rightarrow> string \<Rightarrow> bool" where
  "fresh_header_per_attempt net s url =
     (let ((r, evs), s') = fetch_page net s url
      in headers_sent evs = map (ua s) [drawn s..<drawn s + attempts_made evs]
         \<and> drawn s' = drawn s + attempts_made evs)"

section \<open>Sample inputs\<close>

text \<open>
  A scraper whose generator yields three different User-Agent values; a page with one
  sponsored container that holds an absolute link, and a page whose only container holds
  the link \<^verbatim>\<open>http://[\<close>; libraries that parse these two pages and that take the host of
  a link as \<^verbatim>\<open>urlparse\<close> does, raising \<^verbatim>\<open>ValueError\<close> on an unmatched bracket.
\<close>

definition sample_scraper :: EcosiaScraper where
  "sample_scraper =
     \<lparr>proxy = ''socks5://127.0.0.1:9510'',
      ua = (\<lambda>n. if n = 0 then ''A'' else if n = 1 then ''B'' else ''C''),
      drawn = 0\<rparr>"

definition sponsored_html :: string where
  "sponsored_html = ''<div>Ads provided by Google <a href=http://shop.test/buy>Buy now</a></div>''"

definition sponsored_div :: node where
  "sponsored_div =
     Tag ''div'' []
       [Text ''Ads provided by Google '',
        Tag ''a'' [(''href'', ''http://shop.test/buy'')] [Text ''Buy now'']]"

definition bracket_html :: string where
  "bracket_html = ''<div><a href=http://[>Offer</a></div>''"

definition bracket_div :: node where
  "bracket_div = Tag ''div'' [] [Tag ''a'' [(''href'', ''http://['')] [Text ''Offer'']]"

definition sample_netloc :: "string \<Rightarrow> py_exception + string" where
  "sample_netloc u =
     (let rest = drop 1 (dropWhile (\<lambda>c. c \<noteq> CHR '':'') u);
          host = takeWhile (\<lambda>c. c \<notin> set ''/?#'') (drop 2 rest)
      in if \<not> startswith rest ''//'' then Inr []
         else if (CHR ''['' \<in> set host) \<noteq> (CHR '']'' \<in> set host) then Inl ValueError
         else Inr host)"

definition sample_libs :: libs where
  "sample_libs =
     \<lparr>quote = (\<lambda>q. q),
      soup = (\<lambda>h. if h = sponsored_html then Inr [sponsored_div]
                 else if h = bracket_html then Inr [bracket_div]
                 else Inr []),
      netloc = sample_netloc\<rparr>"

text \<open>
  Two fetcher stubs that count their calls. Both raise on the third result page of the
  query \<^verbatim>\<open>cats\<close> and return nothing for the pages after the first; for the first page
  one serves the sponsored page and the other the page with the bracket link.
\<close>

definition stub_fetch :: "string \<Rightarrow> nat \<Rightarrow> string option outcome \<times> nat" where
  "stub_fetch url calls =
     (if url = ''https://www.ecosia.org/search?q=cats'' then (Returned (Some sponsored_html), Suc calls)
      else if url = ''https://www.ecosia.org/search?q=cats&p=2'' then (Raised TimeoutError, Suc calls)
      else (Returned None, Suc calls))"

definition bracket_fetch :: "string \<Rightarrow> nat \<Rightarrow> string option outcome \<times> nat" where
  "bracket_fetch url calls =
     (if url = ''https://www.ecosia.org/search?q=cats'' then (Returned (Some bracket_html), Suc calls)
      else if url = ''https://www.ecosia.org/search?q=cats&p=2'' then (Raised TimeoutError, Suc calls)
      else (Returned None, Suc calls))"

text \<open>
  An environment in which every request is answered with status 503 and one file name,
  that of a directory, cannot be opened for writing; and the world before the run.
\<close>

definition sample_env :: env where
  "sample_env =
     \<lparr>network = (\<lambda>url k. Response 503 (Body [])),
      library = sample_libs,
      page_sched = (\<lambda>query. [4, 2, 0, 1, 3]),
      sink = (\<lambda>name. if name = ''locked.json'' then OpenRaises OSError else Writes)\<rparr>"

definition sample_world :: world where
  "sample_world = \<lparr>scraper = sample_scraper, files = Map.empty\<rparr>"

text \<open>
  The bookkeeping of the two semaphores: the tasks inside a block and the free slots of its
  semaphore add up to the value the semaphore was created with.
\<close>

definition limiter_inv :: "nat \<Rightarrow> sys \<Rightarrow> bool" where
  "limiter_inv n s =
     (active_queries n s + query_sem s = 3 \<and> fetches_in_flight n s + sem s = 10)"

text \<open>
  A run of four queries that fills both limiters: three queries enter, and the page
  fetches of two of them put ten requests in flight.
\<close>

definition busy_run :: "action list" where
  "busy_run =
     [Enter 0, Enter 1, Enter 2,
      Acquire 0 0, Acquire 0 1, Acquire 0 2, Acquire 0 3, Acquire 0 4,
      Acquire 1 0, Acquire 1 1, Acquire 1 2, Acquire 1 3, Acquire 1 4]"

section \<open>Properties of \<^verbatim>\<open>fetch_page\<close>\<close>

lemma try_once_result: "fst (try_once a url hdr) = clean_body a"
  by (cases a rule: clean_body.cases) simp_all

lemma try_once_headers: "headers_sent (snd (try_once a url hdr)) = [hdr]"
  by (cases a rule: clean_body.cases) simp_all

lemma retry_loop_fail:
  assumes "clean_body (net k) = None"
  shows "retry_loop net url hdr (k # ks) =
    (fst (retry_loop net url hdr ks),
     snd (try_once (net k) url hdr) @ (if k < RETRIES - 1 then [Sleep 2] else [])
       @ snd (retry_loop net url hdr ks))"
proof -
  obtain r evs where t: "try_once (net k) url hdr = (r, evs)"
    by (cases "try_once (net k) url hdr")
  with try_once_result [of "net k" url hdr] assms have "r = None" by simp
  with t show ?thesis by (simp add: split_beta)
qed

lemma retry_loop_ok:
  assumes "clean_body (net k) = Some h"
  shows "retry_loop net url hdr (k # ks) = (Some h, snd (try_once (net k) url hdr))"
proof -
  obtain r evs where t: "try_once (net k) url hdr = (r, evs)"
    by (cases "try_once (net k) url hdr")
  with try_once_result [of "net k" url hdr] assms have "r = Some h" by simp
  with t show ?thesis by simp
qed

lemma retry_loop_result:
  "fst (retry_loop net url hdr ks) =
     (case List.map_filter (\<lambda>k. clean_body (net k)) ks of [] \<Rightarrow> None | h # _ \<Rightarrow> Some h)"
proof (induction ks)
  case Nil
  show ?case by simp
next
  case (Cons k ks)
  show ?case
  proof (cases "clean_body (net k)")
    case None
    with Cons show ?thesis
      by (simp add: retry_loop_fail del: retry_loop.simps)
  next
    case (Some h)
    then show ?thesis
      by (simp add: retry_loop_ok del: retry_loop.simps)
  qed
qed

lemma headers_sent_append: "headers_sent (xs @ ys) = headers_sent xs @ headers_sent ys"
  by (induction xs rule: headers_sent.induct) simp_all

lemma retry_loop_headers_all_fail:
  "list_all (\<lambda>k. clean_body (net k) = None) ks \<Longrightarrow>
     headers_sent (snd (retry_loop net url hdr ks)) = replicate (length ks) hdr"
proof (induction ks)
  case Nil
  show ?case by simp
next
  case (Cons k ks)
  then show ?case
    by (simp add: retry_loop_fail headers_sent_append try_once_headers del: retry_loop.simps)
qed

lemma retry_loop_headers_same:
  "x \<in> set (headers_sent (snd (retry_loop net url hdr ks))) \<Longrightarrow> x = hdr"
proof (induction ks)
  case Nil
  then show ?case by simp
next
  case (Cons k ks)
  show ?case
  proof (cases "clean_body (net k)")
    case None
    with Cons show ?thesis
      by (auto simp: retry_loop_fail headers_sent_append try_once_headers
          simp del: retry_loop.simps split: if_splits)
  next
    case (Some h)
    with Cons.prems show ?thesis
      by (simp add: retry_loop_ok try_once_headers del: retry_loop.simps)
  qed
qed

lemma retry_loop_attempts_le:
  "length (headers_sent (snd (retry_loop net url hdr ks))) \<le> length ks"
proof (induction ks)
  case Nil
  show ?case by simp
next
  case (Cons k ks)
  show ?case
  proof (cases "clean_body (net k)")
    case None
    with Cons show ?thesis
      by (simp add: retry_loop_fail headers_sent_append try_once_headers del: retry_loop.simps)
  next
    case (Some h)
    then show ?thesis
      by (simp add: retry_loop_ok try_once_headers del: retry_loop.simps)
  qed
qed

lemma fetch_page_parts:
  "fetch_page net s url =
     ((fst (retry_loop net url (ua s (drawn s)) [0..<RETRIES]),
       LogDebug # snd (retry_loop net url (ua s (drawn s)) [0..<RETRIES])),
      s\<lparr>drawn := Suc (drawn s)\<rparr>)"
  by (simp add: fetch_page_def ua_random_def split: prod.splits)

lemma map_filter_hd_iff:
  "(case List.map_filter f ks of [] \<Rightarrow> None | h # _ \<Rightarrow> Some h) = Some y \<longleftrightarrow>
     (\<exists>i<length ks. f (ks ! i) = Some y \<and> (\<forall>j<i. f (ks ! j) = None))"
proof (induction ks)
  case Nil
  show ?case by simp
next
  case (Cons k ks)
  show ?case
  proof (cases "f k")
    case None
    with Cons show ?thesis
      by (simp add: Ex_less_Suc2 All_less_Suc2)
  next
    case (Some z)
    then show ?thesis
      by (auto simp: Ex_less_Suc2 All_less_Suc2)
  qed
qed

lemma upt_first_index:
  "(\<exists>i<n. f ([0..<n] ! i) = Some y \<and> (\<forall>j<i. f ([0..<n] ! j) = None)) \<longleftrightarrow>
   (\<exists>k<n. f k = Some y \<and> (\<forall>j<k. f j = None))"
  by (simp cong: conj_cong)

lemma map_filter_hd_None:
  "(case List.map_filter f ks of [] \<Rightarrow> None | h # _ \<Rightarrow> Some h) = None \<longleftrightarrow>
     list_all (\<lambda>k. f k = None) ks"
  by (induction ks) (auto simp: split: option.splits)

text \<open>
  Claim C3, as the code has it. \<^verbatim>\<open>fetch_page\<close> returns content exactly when one of its
  \<open>RETRIES\<close> attempts receives a response with status 200 whose body is read without an
  exception, all earlier attempts having failed; the content is the body of that attempt, so
  a success on the last allowed attempt is used. In every other case (non-200 statuses,
  transport errors, timeouts, a failed read of the body) it returns \<^verbatim>\<open>None\<close>; the function
  has a result on every path, none of these exceptions reaches the caller.
\<close>

theorem fetch_page_content:
  "(fst (fst (fetch_page net s url)) = Some html \<longleftrightarrow>
      (\<exists>k<RETRIES. clean_body (net k) = Some html \<and> (\<forall>j<k. clean_body (net j) = None)))
   \<and> (fst (fst (fetch_page net s url)) = None \<longleftrightarrow> (\<forall>k<RETRIES. clean_body (net k) = None))"
proof
  have fetch_result: "fst (fst (fetch_page net s url)) =
      (case List.map_filter (\<lambda>k. clean_body (net k)) [0..<RETRIES] of [] \<Rightarrow> None | h # _ \<Rightarrow> Some h)"
    by (simp add: fetch_page_parts retry_loop_result)
  show "fst (fst (fetch_page net s url)) = Some html \<longleftrightarrow>
      (\<exists>k<RETRIES. clean_body (net k) = Some html \<and> (\<forall>j<k. clean_body (net j) = None))"
    unfolding fetch_result
    using map_filter_hd_iff [of "\<lambda>k. clean_body (net k)" "[0..<RETRIES]" html]
      upt_first_index [of RETRIES "\<lambda>k. clean_body (net k)" html]
    by (simp only: length_upt diff_zero)
  show "fst (fst (fetch_page net s url)) = None \<longleftrightarrow> (\<forall>k<RETRIES. clean_body (net k) = None)"
    by (auto simp: fetch_page_parts retry_loop_result map_filter_hd_None list_all_iff)
qed

theorem fetch_page_content_witness:
  "fst (fst (fetch_page (\<lambda>k. if k = 2 then Response 200 (Body ''<html>'') else GetRaises TimeoutError)
       sample_scraper ''https://www.ecosia.org/search?q=cats'')) = Some ''<html>''"
proof -
  let ?net = "\<lambda>k::nat. if k = 2 then Response 200 (Body ''<html>'') else GetRaises TimeoutError"
  have "\<exists>k<RETRIES. clean_body (?net k) = Some ''<html>'' \<and> (\<forall>j<k. clean_body (?net j) = None)"
    by (rule exI [of _ 2]) (simp add: RETRIES_def)
  with fetch_page_content [of ?net sample_scraper "''https://www.ecosia.org/search?q=cats''" "''<html>''"]
  show ?thesis by blast
qed

text \<open>
  The claim C3 as the specification words it, a status 200 on some attempt being enough,
  fails where every response has status 200 and the read of its body raises: the
  \<^verbatim>\<open>except\<close> clause takes each such attempt as failed and \<^verbatim>\<open>None\<close> is returned.
\<close>

theorem fetch_page_status_counterexample:
  "\<not> ((\<exists>html. fst (fst (fetch_page (\<lambda>k. Response 200 (BodyRaises PayloadError)) sample_scraper
              ''https://www.ecosia.org/search?q=cats'')) = Some html)
        \<longleftrightarrow> received_200 (\<lambda>k. Response 200 (BodyRaises PayloadError)))"
  by (simp add: received_200_def fetch_page_def ua_random_def sample_scraper_def RETRIES_def upt_rec)

text \<open>
  Claim C4. When every attempt fails, \<^verbatim>\<open>fetch_page\<close> issues exactly \<open>RETRIES\<close> requests,
  three by default, and then returns \<^verbatim>\<open>None\<close>.
\<close>

theorem fetch_page_exhausts_retries:
  assumes "\<forall>k<RETRIES. clean_body (net k) = None"
  shows "attempts_made (snd (fst (fetch_page net s url))) = RETRIES
    \<and> RETRIES = 3
    \<and> fst (fst (fetch_page net s url)) = None"
proof -
  from assms have all: "list_all (\<lambda>k. clean_body (net k) = None) [0..<RETRIES]"
    by (simp add: list_all_iff)
  have "attempts_made (snd (fst (fetch_page net s url))) = RETRIES"
    by (simp add: fetch_page_parts attempts_made_def retry_loop_headers_all_fail [OF all])
  moreover have "fst (fst (fetch_page net s url)) = None"
    using all by (simp add: fetch_page_parts retry_loop_result map_filter_hd_None)
  ultimately show ?thesis by (simp add: RETRIES_def)
qed

theorem fetch_page_exhausts_retries_witness:
  "attempts_made (snd (fst (fetch_page (\<lambda>k. if k = 1 then GetRaises ClientError else Response 503 (Body []))
        sample_scraper ''https://www.ecosia.org/search?q=cats''))) = 3
   \<and> fst (fst (fetch_page (\<lambda>k. if k = 1 then GetRaises ClientError else Response 503 (Body []))
        sample_scraper ''https://www.ecosia.org/search?q=cats'')) = None"
  using fetch_page_exhausts_retries [of "\<lambda>k. if k = 1 then GetRaises ClientError else Response 503 (Body [])"
      sample_scraper "''https://www.ecosia.org/search?q=cats''"]
  by simp

text \<open>
  Claim C6, as the code has it. One call of \<^verbatim>\<open>fetch_page\<close> reads the generator once, before
  the loop, and every request of the call, at most \<open>RETRIES\<close> of them, carries that one
  User-Agent header.
\<close>

theorem fetch_page_one_header:
  "drawn (snd (fetch_page net s url)) = Suc (drawn s)
   \<and> headers_sent (snd (fst (fetch_page net s url)))
       = replicate (attempts_made (snd (fst (fetch_page net s url)))) (ua s (drawn s))
   \<and> attempts_made (snd (fst (fetch_page net s url))) \<le> RETRIES"
proof -
  let ?evs = "snd (retry_loop net url (ua s (drawn s)) [0..<RETRIES])"
  have "\<forall>x\<in>set (headers_sent ?evs). x = ua s (drawn s)"
    using retry_loop_headers_same by blast
  then have "replicate (length (headers_sent ?evs)) (ua s (drawn s)) = headers_sent ?evs"
    by (rule replicate_length_same)
  moreover have "length (headers_sent ?evs) \<le> RETRIES"
    using retry_loop_attempts_le [of net url "ua s (drawn s)" "[0..<RETRIES]"] by simp
  ultimately show ?thesis
    by (simp add: fetch_page_parts attempts_made_def)
qed

text \<open>
  The claim C6 as the specification words it, a header drawn anew for every attempt, fails
  on three failing attempts: the generator would yield A, B, C, and the three requests all
  carry A.
\<close>

theorem fetch_page_header_counterexample:
  "\<not> fresh_header_per_attempt (\<lambda>k. Response 500 (Body [])) sample_scraper ''https://www.ecosia.org/search?q=cats''"
  by (simp add: fresh_header_per_attempt_def fetch_page_def ua_random_def sample_scraper_def RETRIES_def
      attempts_made_def upt_rec)

section \<open>Properties of \<^verbatim>\<open>parse_page\<close>\<close>

lemma lower_char_not_G: "lower_char c \<noteq> CHR ''G''"
proof
  assume a: "lower_char c = CHR ''G''"
  let ?n = "of_char c :: nat"
  show False
  proof (cases "(65 \<le> ?n \<and> ?n \<le> 90) \<or> (192 \<le> ?n \<and> ?n \<le> 222 \<and> ?n \<noteq> 215)")
    case True
    with a have "char_of (?n + 32) = CHR ''G''" by (simp add: lower_char_def Let_def)
    then have "of_char (char_of (?n + 32) :: char) = (of_char (CHR ''G'') :: nat)" by simp
    then have m: "(?n + 32) mod 256 = 71" by simp
    from True have "?n + 32 < 256" by auto
    with m have "?n + 32 = 71" by simp
    with True show False by auto
  next
    case False
    with a have "c = CHR ''G''" by (simp add: lower_char_def Let_def)
    with False show False by simp
  qed
qed

lemma startswith_set: "startswith s p \<Longrightarrow> set p \<subseteq> set s"
  by (induction s p rule: startswith.induct) auto

lemma contains_set: "contains s sub \<Longrightarrow> set sub \<subseteq> set s"
proof (induction s)
  case Nil
  then show ?case by simp
next
  case (Cons c s)
  from Cons.prems have "startswith (c # s) sub \<or> contains s sub" by simp
  then show ?case
  proof
    assume "startswith (c # s) sub"
    then show ?thesis by (rule startswith_set)
  next
    assume "contains s sub"
    with Cons.IH show ?thesis by auto
  qed
qed

lemma sponsored_filter_never_matches: "\<not> is_sponsored_text t"
proof
  assume "is_sponsored_text t"
  then have "contains (lower t) ''provided by Google''" by (simp add: is_sponsored_text_def)
  then have "set ''provided by Google'' \<subseteq> set (lower t)" by (rule contains_set)
  then have "CHR ''G'' \<in> set (lower t)" by simp
  then obtain c where "lower_char c = CHR ''G''" by (auto simp: lower_def)
  with lower_char_not_G show False by blast
qed

lemma find_text_sponsored: "find_text is_sponsored_text n = None"
  by (simp add: find_text_def find_None_iff sponsored_filter_never_matches)

lemma sample_netloc_shop: "sample_netloc ''http://shop.test/buy'' = Inr ''shop.test''"
  by (simp add: sample_netloc_def)

lemma sample_netloc_bracket: "sample_netloc ''http://['' = Inl ValueError"
  by (simp add: sample_netloc_def)

lemma sponsored_record:
  "container_record sample_libs kw sponsored_div =
     Inr (Some \<lparr>title = ''Buy now'', link = ''http://shop.test/buy'', description = [],
       favicon_path = ''https://www.google.com/s2/favicons?domain=shop.test'', keyword = kw\<rparr>)"
  by (simp add: container_record_def find_text_sponsored sample_libs_def sample_netloc_shop
      sponsored_div_def text_content_def List.map_filter_simps strip_def isspace_def)

lemma bracket_record: "container_record sample_libs kw bracket_div = Inl ValueError"
  by (simp add: container_record_def find_text_sponsored sample_libs_def sample_netloc_bracket
      bracket_div_def)

lemma sample_containers:
  "select_containers [sponsored_div] = [sponsored_div] \<and> select_containers [bracket_div] = [bracket_div]"
  by (simp add: select_containers_def sponsored_div_def bracket_div_def attr_contains_def)

lemma sample_pages_differ: "bracket_html \<noteq> sponsored_html"
  by (simp add: bracket_html_def sponsored_html_def)

lemma parse_sponsored_page:
  "parse_page sample_libs (Some sponsored_html) kw pg =
     Inr \<lparr>page = pg, results =
       [\<lparr>title = ''Buy now'', link = ''http://shop.test/buy'', description = [],
         favicon_path = ''https://www.google.com/s2/favicons?domain=shop.test'', keyword = kw\<rparr>]\<rparr>"
proof -
  have "soup sample_libs sponsored_html = Inr [sponsored_div]"
    by (simp add: sample_libs_def)
  then show ?thesis
    by (simp add: parse_page_def sample_containers sponsored_record)
qed

lemma parse_bracket_page: "parse_page sample_libs (Some bracket_html) kw pg = Inl ValueError"
proof -
  have "soup sample_libs bracket_html = Inr [bracket_div]"
    using sample_pages_differ by (simp add: sample_libs_def)
  then show ?thesis
    by (simp add: parse_page_def sample_containers bracket_record)
qed

text \<open>
  Claim C5 asks that no record comes from a container whose text contains
  \<^verbatim>\<open>provided by Google\<close>. The code compares the marker, which has a capital letter, with
  the lower-cased text, so the check never fires (\<open>sponsored_filter_never_matches\<close>): on
  the sample page the sponsored container, whose text contains the marker, yields a record.
\<close>

theorem sponsored_container_emitted:
  "contains (text_content sponsored_div) ''provided by Google''
   \<and> parse_page sample_libs (Some sponsored_html) ''shoes'' 1 =
       Inr \<lparr>page = 1, results =
         [\<lparr>title = ''Buy now'', link = ''http://shop.test/buy'', description = [],
           favicon_path = ''https://www.google.com/s2/favicons?domain=shop.test'',
           keyword = ''shoes''\<rparr>]\<rparr>"
proof
  show "contains (text_content sponsored_div) ''provided by Google''"
    by (simp add: sponsored_div_def text_content_def List.map_filter_simps)
  show "parse_page sample_libs (Some sponsored_html) ''shoes'' 1 =
       Inr \<lparr>page = 1, results =
         [\<lparr>title = ''Buy now'', link = ''http://shop.test/buy'', description = [],
           favicon_path = ''https://www.google.com/s2/favicons?domain=shop.test'',
           keyword = ''shoes''\<rparr>]\<rparr>"
    by (rule parse_sponsored_page)
qed

section \<open>Properties of \<^verbatim>\<open>scrape_query\<close>\<close>

lemma pages_upt: "[0..<PAGES] = [0, 1, 2, 3, 4]"
  by (simp add: PAGES_def upt_rec)

lemma page_numbers: "[1..<PAGES + 1] = [1, 2, 3, 4, 5]"
  by (simp add: PAGES_def upt_rec)

lemma complete_length: "length (complete outs sched slots) = length slots"
  by (induction sched arbitrary: slots) simp_all

lemma complete_nth:
  "i < length slots \<Longrightarrow> length slots = length outs \<Longrightarrow>
     complete outs sched slots ! i = (if i \<in> set sched then Some (outs ! i) else slots ! i)"
proof (induction sched arbitrary: slots)
  case Nil
  show ?case by simp
next
  case (Cons j sched)
  show ?case
  proof (cases "j < length outs")
    case True
    with Cons.prems Cons.IH [of "slots[j := Some (outs ! j)]"] show ?thesis
      by (auto simp: nth_list_update)
  next
    case False
    with Cons.prems Cons.IH [of slots] show ?thesis by auto
  qed
qed

lemma those_map_Some: "those (map Some xs) = Some xs"
  by (induction xs) simp_all

lemma gather_all_done:
  assumes "{0..<length outs} \<subseteq> set sched"
  shows "gather outs sched = Some outs"
proof -
  have "complete outs sched (replicate (length outs) None) = map Some outs"
  proof (rule nth_equalityI)
    show "length (complete outs sched (replicate (length outs) None)) = length (map Some outs)"
      by (simp add: complete_length)
  next
    fix i assume "i < length (complete outs sched (replicate (length outs) None))"
    then have i: "i < length outs" by (simp add: complete_length)
    with assms have "i \<in> set sched" by auto
    with i show "complete outs sched (replicate (length outs) None) ! i = map Some outs ! i"
      by (simp add: complete_nth)
  qed
  then show ?thesis by (simp add: gather_def those_map_Some)
qed

lemma run_tasks_length: "length (fst (run_tasks fetch urls s)) = length urls"
  by (induction urls arbitrary: s) (simp_all add: split_beta)

lemma page_outcomes_length: "length (page_outcomes fetch L s query) = PAGES"
  by (simp add: page_outcomes_def run_tasks_length)

lemma parse_page_index: "parse_page L html kw pg = Inr r \<Longrightarrow> page r = pg"
  by (auto simp: parse_page_def split: option.splits sum.splits)

lemma parse_page_absent: "parse_page L None kw pg = Inr \<lparr>page = pg, results = []\<rparr>"
  by (simp add: parse_page_def)

lemma failed_content: "failed out \<Longrightarrow> content_of out = None"
  by (cases out rule: failed.cases) simp_all

lemma failed_parses: "failed out \<Longrightarrow> parses L query pg out"
  by (simp add: parses_def failed_content parse_page_absent)

lemma assemble_parses:
  assumes "\<forall>p<length outs. parses L query (n + p) (outs ! p)"
  shows "\<exists>pages. assemble L query n outs = Inr pages \<and> length pages = length outs
    \<and> (\<forall>p<length outs. parse_page L (content_of (outs ! p)) query (n + p) = Inr (pages ! p))"
  using assms
proof (induction outs arbitrary: n)
  case Nil
  show ?case by simp
next
  case (Cons out outs)
  from Cons.prems have "parses L query (n + 0) ((out # outs) ! 0)" by blast
  then obtain parsed where first: "parse_page L (content_of out) query n = Inr parsed"
    by (auto simp: parses_def split: sum.splits)
  have "\<forall>p<length outs. parses L query (Suc n + p) (outs ! p)"
  proof (intro allI impI)
    fix p assume "p < length outs"
    with Cons.prems have "parses L query (n + Suc p) ((out # outs) ! Suc p)" by auto
    then show "parses L query (Suc n + p) (outs ! p)" by simp
  qed
  from Cons.IH [OF this] obtain pages where rest: "assemble L query (Suc n) outs = Inr pages"
    "length pages = length outs"
    "\<forall>p<length outs. parse_page L (content_of (outs ! p)) query (Suc n + p) = Inr (pages ! p)"
    by blast
  have "\<forall>p<length (out # outs).
      parse_page L (content_of ((out # outs) ! p)) query (n + p) = Inr ((parsed # pages) ! p)"
  proof (intro allI impI)
    fix p assume p: "p < length (out # outs)"
    show "parse_page L (content_of ((out # outs) ! p)) query (n + p) = Inr ((parsed # pages) ! p)"
    proof (cases p)
      case 0
      with first show ?thesis by simp
    next
      case (Suc p')
      with p rest(3) show ?thesis by simp
    qed
  qed
  with first rest(1,2) show ?case by simp
qed

lemma scrape_query_returns:
  assumes "mset sched = mset [0..<PAGES]"
  shows "scrape_query fetch L sched s query =
    Some (case assemble L query 1 (page_outcomes fetch L s query) of
            Inl e \<Rightarrow> Inl e
          | Inr structured_data \<Rightarrow> Inr [(query, structured_data)],
          snd (run_tasks fetch (map (page_url L query) [1..<PAGES + 1]) s))"
proof -
  from assms have "set sched = {0..<PAGES}"
    by (metis mset_eq_setD set_upt)
  then have "{0..<length (page_outcomes fetch L s query)} \<subseteq> set sched"
    by (simp add: page_outcomes_length)
  then have "gather (page_outcomes fetch L s query) sched = Some (page_outcomes fetch L s query)"
    by (rule gather_all_done)
  then show ?thesis
    by (simp add: scrape_query_def page_outcomes_def split_beta split: sum.splits)
qed

lemma scrape_query_parsed:
  assumes "mset sched = mset [0..<PAGES]"
    and "\<forall>p<PAGES. parses L query (Suc p) (page_outcomes fetch L s query ! p)"
  shows "\<exists>pages. scrape_query fetch L sched s query =
      Some (Inr [(query, pages)], snd (run_tasks fetch (map (page_url L query) [1..<PAGES + 1]) s))
    \<and> length pages = PAGES
    \<and> (\<forall>p<PAGES. parse_page L (content_of (page_outcomes fetch L s query ! p)) query (Suc p)
          = Inr (pages ! p))"
proof -
  from assms(2) have "\<forall>p<length (page_outcomes fetch L s query).
      parses L query (1 + p) (page_outcomes fetch L s query ! p)"
    by (simp add: page_outcomes_length)
  from assemble_parses [OF this] obtain pages where
    "assemble L query 1 (page_outcomes fetch L s query) = Inr pages"
    "length pages = PAGES"
    "\<forall>p<PAGES. parse_page L (content_of (page_outcomes fetch L s query ! p)) query (Suc p)
        = Inr (pages ! p)"
    by (auto simp: page_outcomes_length)
  with scrape_query_returns [OF assms(1), of fetch L s query] show ?thesis
    by simp
qed

lemma page_offsets:
  "str_of_nat (Suc 0) = ''1'' \<and> str_of_nat 2 = ''2'' \<and> str_of_nat 3 = ''3'' \<and> str_of_nat 4 = ''4''"
  by code_simp

lemma sample_urls:
  "map (page_url sample_libs ''cats'') [1..<PAGES + 1] =
     [''https://www.ecosia.org/search?q=cats'', ''https://www.ecosia.org/search?q=cats&p=1'',
      ''https://www.ecosia.org/search?q=cats&p=2'', ''https://www.ecosia.org/search?q=cats&p=3'',
      ''https://www.ecosia.org/search?q=cats&p=4'']"
  unfolding page_numbers by (simp add: page_url_def sample_libs_def page_offsets del: str_of_nat.simps)

lemma stub_run:
  "run_tasks stub_fetch (map (page_url sample_libs ''cats'') [1..<PAGES + 1]) (0::nat) =
     ([Returned (Some sponsored_html), Returned None, Raised TimeoutError, Returned None,
       Returned None], 5)"
  unfolding sample_urls by (simp add: stub_fetch_def)

lemma bracket_run:
  "run_tasks bracket_fetch (map (page_url sample_libs ''cats'') [1..<PAGES + 1]) (0::nat) =
     ([Returned (Some bracket_html), Returned None, Raised TimeoutError, Returned None,
       Returned None], 5)"
  unfolding sample_urls by (simp add: bracket_fetch_def)

lemma bracket_outcomes:
  "page_outcomes bracket_fetch sample_libs (0::nat) ''cats'' =
      [Returned (Some bracket_html), Returned None, Raised TimeoutError, Returned None,
       Returned None]"
  unfolding page_outcomes_def bracket_run by simp

text \<open>
  Claim C1, as the code has it. When parsing what the page tasks delivered raises no
  exception, then, whatever the order in which the page fetches complete, \<^verbatim>\<open>scrape_query\<close>
  returns a dictionary with the query as its single key, whose value has exactly \<open>PAGES\<close>
  page results with the page indices 1 to \<open>PAGES\<close> in ascending order; it is the document
  obtained when the fetches complete in page order.
\<close>

theorem scrape_query_pages_in_order:
  assumes "mset sched = mset [0..<PAGES]"
    and "\<forall>p<PAGES. parses L query (Suc p) (page_outcomes fetch L s query ! p)"
  shows "\<exists>pages s'. scrape_query fetch L sched s query = Some (Inr [(query, pages)], s')
    \<and> length pages = PAGES
    \<and> map page pages = [1..<PAGES + 1]
    \<and> scrape_query fetch L [0..<PAGES] s query = Some (Inr [(query, pages)], s')"
proof -
  from scrape_query_parsed [OF assms] obtain pages where
    doc: "scrape_query fetch L sched s query =
      Some (Inr [(query, pages)], snd (run_tasks fetch (map (page_url L query) [1..<PAGES + 1]) s))"
    and len: "length pages = PAGES"
    and each: "\<forall>p<PAGES. parse_page L (content_of (page_outcomes fetch L s query ! p)) query (Suc p)
        = Inr (pages ! p)"
    by blast
  from scrape_query_parsed [OF _ assms(2), of "[0..<PAGES]"] obtain pages' where
    doc': "scrape_query fetch L [0..<PAGES] s query =
      Some (Inr [(query, pages')], snd (run_tasks fetch (map (page_url L query) [1..<PAGES + 1]) s))"
    and len': "length pages' = PAGES"
    and each': "\<forall>p<PAGES. parse_page L (content_of (page_outcomes fetch L s query ! p)) query (Suc p)
        = Inr (pages' ! p)"
    by auto
  have "pages' = pages"
  proof (rule nth_equalityI)
    show "length pages' = length pages" using len len' by simp
  next
    fix p assume "p < length pages'"
    with len' each each' have "Inr (pages' ! p) = (Inr (pages ! p) :: py_exception + page_result)"
      by (metis)
    then show "pages' ! p = pages ! p" by simp
  qed
  moreover have "map page pages = [1..<PAGES + 1]"
  proof (rule nth_equalityI)
    show "length (map page pages) = length [1..<PAGES + 1]" using len by simp
  next
    fix p assume "p < length (map page pages)"
    with len have p: "p < PAGES" by simp
    with each have "parse_page L (content_of (page_outcomes fetch L s query ! p)) query (Suc p)
        = Inr (pages ! p)" by blast
    then have "page (pages ! p) = Suc p" by (rule parse_page_index)
    with p len show "map page pages ! p = [1..<PAGES + 1] ! p" by (simp del: upt_Suc)
  qed
  ultimately show ?thesis using doc doc' len by blast
qed

theorem scrape_query_pages_in_order_witness:
  "\<exists>pages s'. scrape_query stub_fetch sample_libs [3, 1, 0, 4, 2] (0::nat) ''cats''
       = Some (Inr [(''cats'', pages)], s')
     \<and> map page pages = [1, 2, 3, 4, 5]"
proof -
  have perm: "mset [3, 1, 0, 4, 2] = mset [0..<PAGES]"
    unfolding pages_upt by simp
  have outs: "page_outcomes stub_fetch sample_libs (0::nat) ''cats'' =
      [Returned (Some sponsored_html), Returned None, Raised TimeoutError, Returned None,
       Returned None]"
    unfolding page_outcomes_def stub_run by simp
  have "\<forall>x\<in>set (page_outcomes stub_fetch sample_libs (0::nat) ''cats'').
      \<forall>pg. parses sample_libs ''cats'' pg x"
    unfolding outs by (simp add: parses_def parse_sponsored_page parse_page_absent)
  then have "\<forall>p<PAGES. parses sample_libs ''cats'' (Suc p)
      (page_outcomes stub_fetch sample_libs (0::nat) ''cats'' ! p)"
    by (simp add: page_outcomes_length)
  from scrape_query_pages_in_order [OF perm this]
  obtain pages s' where "scrape_query stub_fetch sample_libs [3, 1, 0, 4, 2] (0::nat) ''cats''
       = Some (Inr [(''cats'', pages)], s')"
    and "map page pages = [1..<PAGES + 1]"
    by blast
  then show ?thesis
    unfolding page_numbers by simp
qed

text \<open>
  The claim C1 as the specification words it, a document for every query, fails when a
  fetched page holds a link that \<^verbatim>\<open>urlparse\<close> rejects, here \<^verbatim>\<open>http://[\<close> on the first
  page: \<^verbatim>\<open>parse_page\<close> raises \<^verbatim>\<open>ValueError\<close>, nothing in \<^verbatim>\<open>scrape_query\<close> catches it, and
  the coroutine ends with the exception instead of a document, all five fetches having
  completed.
\<close>

theorem scrape_query_raises_counterexample:
  "mset [3, 1, 0, 4, 2] = mset [0..<PAGES]
   \<and> scrape_query bracket_fetch sample_libs [3, 1, 0, 4, 2] (0::nat) ''cats''
       = Some (Inl ValueError, 5)"
proof -
  have perm: "mset [3, 1, 0, 4, 2] = mset [0..<PAGES]"
    unfolding pages_upt by simp
  have raised: "assemble sample_libs ''cats'' 1
      (page_outcomes bracket_fetch sample_libs (0::nat) ''cats'') = Inl ValueError"
    unfolding bracket_outcomes by (simp add: parse_bracket_page)
  from scrape_query_returns [OF perm, of bracket_fetch sample_libs 0 "''cats''"]
  have "scrape_query bracket_fetch sample_libs [3, 1, 0, 4, 2] (0::nat) ''cats''
      = Some (Inl ValueError, 5)"
    unfolding raised bracket_run by simp
  with perm show ?thesis by blast
qed

lemma fetch_task_exhausted:
  assumes "\<forall>k<RETRIES. clean_body (net url k) = None"
  shows "fst (fetch_task net url s) = Returned None"
proof -
  from assms have "list_all (\<lambda>k. clean_body (net url k) = None) [0..<RETRIES]"
    by (simp add: list_all_iff)
  then have "fst (fst (fetch_page (net url) s url)) = None"
    by (simp add: fetch_page_parts retry_loop_result map_filter_hd_None)
  then show ?thesis
    by (simp add: fetch_task_def split_beta)
qed

lemma run_tasks_all:
  assumes "\<And>url s. P (fst (fetch url s))"
  shows "list_all P (fst (run_tasks fetch urls s))"
proof (induction urls arbitrary: s)
  case Nil
  show ?case by simp
next
  case (Cons url urls)
  from assms [of url s] Cons [of "snd (fetch url s)"] show ?case
    by (simp add: split_beta)
qed

lemma sample_all_failed:
  "\<forall>p<PAGES. failed (page_outcomes (fetch_task (network sample_env)) L s q ! p)"
proof -
  have "\<And>url s. failed (fst (fetch_task (network sample_env) url s))"
    by (simp add: fetch_task_exhausted sample_env_def)
  then have "list_all failed (page_outcomes (fetch_task (network sample_env)) L s q)"
    unfolding page_outcomes_def by (rule run_tasks_all)
  then show ?thesis
    by (simp add: list_all_length page_outcomes_length)
qed

text \<open>
  Claim C2, as the code has it. When every page of a query fails, by \<^verbatim>\<open>None\<close> returned
  after the retries or by an exception raised in the fetch, \<^verbatim>\<open>scrape_query\<close> returns the
  complete document of \<open>PAGES\<close> empty page results. When parsing what the page tasks
  delivered raises no exception, every page whose fetch failed has its page result in the
  returned document, with its own page index and no records.
\<close>

theorem scrape_query_failed_pages:
  assumes "mset sched = mset [0..<PAGES]"
  shows "((\<forall>p<PAGES. failed (page_outcomes fetch L s query ! p)) \<longrightarrow>
      (\<exists>s'. scrape_query fetch L sched s query
         = Some (Inr [(query, map (\<lambda>p. \<lparr>page = p, results = []\<rparr>) [1..<PAGES + 1])], s')))
    \<and> ((\<forall>p<PAGES. parses L query (Suc p) (page_outcomes fetch L s query ! p)) \<longrightarrow>
      (\<exists>pages s'. scrape_query fetch L sched s query = Some (Inr [(query, pages)], s')
         \<and> length pages = PAGES
         \<and> (\<forall>p<PAGES. failed (page_outcomes fetch L s query ! p) \<longrightarrow>
               pages ! p = \<lparr>page = Suc p, results = []\<rparr>)))"
proof (intro conjI impI)
  let ?outs = "page_outcomes fetch L s query"
  assume all: "\<forall>p<PAGES. failed (?outs ! p)"
  then have "\<forall>p<PAGES. parses L query (Suc p) (?outs ! p)"
    by (simp add: failed_parses)
  from scrape_query_parsed [OF assms this] obtain pages where
    doc: "scrape_query fetch L sched s query =
      Some (Inr [(query, pages)], snd (run_tasks fetch (map (page_url L query) [1..<PAGES + 1]) s))"
    and len: "length pages = PAGES"
    and each: "\<forall>p<PAGES. parse_page L (content_of (?outs ! p)) query (Suc p) = Inr (pages ! p)"
    by blast
  have "pages = map (\<lambda>p. \<lparr>page = p, results = []\<rparr>) [1..<PAGES + 1]"
  proof (rule nth_equalityI)
    show "length pages = length (map (\<lambda>p. \<lparr>page = p, results = []\<rparr>) [1..<PAGES + 1])"
      using len by simp
  next
    fix p assume "p < length pages"
    with len have p: "p < PAGES" by simp
    with all each have "Inr (pages ! p) = parse_page L None query (Suc p)"
      by (simp add: failed_content)
    then have "pages ! p = \<lparr>page = Suc p, results = []\<rparr>"
      by (simp add: parse_page_absent)
    with p show "pages ! p = map (\<lambda>p. \<lparr>page = p, results = []\<rparr>) [1..<PAGES + 1] ! p"
      by (simp del: upt_Suc)
  qed
  with doc show "\<exists>s'. scrape_query fetch L sched s query
      = Some (Inr [(query, map (\<lambda>p. \<lparr>page = p, results = []\<rparr>) [1..<PAGES + 1])], s')"
    by blast
next
  let ?outs = "page_outcomes fetch L s query"
  assume "\<forall>p<PAGES. parses L query (Suc p) (?outs ! p)"
  from scrape_query_parsed [OF assms this] obtain pages where
    doc: "scrape_query fetch L sched s query =
      Some (Inr [(query, pages)], snd (run_tasks fetch (map (page_url L query) [1..<PAGES + 1]) s))"
    and len: "length pages = PAGES"
    and each: "\<forall>p<PAGES. parse_page L (content_of (?outs ! p)) query (Suc p) = Inr (pages ! p)"
    by blast
  have "\<forall>p<PAGES. failed (?outs ! p) \<longrightarrow> pages ! p = \<lparr>page = Suc p, results = []\<rparr>"
  proof (intro allI impI)
    fix p assume p: "p < PAGES" "failed (?outs ! p)"
    with each have "parse_page L (content_of (?outs ! p)) query (Suc p) = Inr (pages ! p)"
      by blast
    with p(2) have "Inr (pages ! p) = parse_page L None query (Suc p)"
      by (simp add: failed_content)
    then show "pages ! p = \<lparr>page = Suc p, results = []\<rparr>"
      by (simp add: parse_page_absent)
  qed
  with doc len show "\<exists>pages s'. scrape_query fetch L sched s query = Some (Inr [(query, pages)], s')
      \<and> length pages = PAGES
      \<and> (\<forall>p<PAGES. failed (?outs ! p) \<longrightarrow> pages ! p = \<lparr>page = Suc p, results = []\<rparr>)"
    by blast
qed

theorem scrape_query_failed_pages_witness:
  "(\<exists>s'. scrape_query (fetch_task (network sample_env)) sample_libs [4, 2, 0, 1, 3]
        sample_scraper ''cats''
      = Some (Inr [(''cats'', [\<lparr>page = 1, results = []\<rparr>, \<lparr>page = 2, results = []\<rparr>,
          \<lparr>page = 3, results = []\<rparr>, \<lparr>page = 4, results = []\<rparr>, \<lparr>page = 5, results = []\<rparr>])], s'))
   \<and> (\<exists>pages s'. scrape_query stub_fetch sample_libs [4, 2, 0, 1, 3] (0::nat) ''cats''
        = Some (Inr [(''cats'', pages)], s')
      \<and> length pages = 5 \<and> pages ! 2 = \<lparr>page = 3, results = []\<rparr>)"
proof
  have perm: "mset [4, 2, 0, 1, 3] = mset [0..<PAGES]"
    unfolding pages_upt by simp
  from scrape_query_failed_pages [OF perm, of "fetch_task (network sample_env)" sample_libs
      sample_scraper "''cats''"] sample_all_failed [of sample_libs sample_scraper "''cats''"]
  have "\<exists>s'. scrape_query (fetch_task (network sample_env)) sample_libs [4, 2, 0, 1, 3]
        sample_scraper ''cats''
      = Some (Inr [(''cats'', map (\<lambda>p. \<lparr>page = p, results = []\<rparr>) [1..<PAGES + 1])], s')"
    by blast
  then show "\<exists>s'. scrape_query (fetch_task (network sample_env)) sample_libs [4, 2, 0, 1, 3]
        sample_scraper ''cats''
      = Some (Inr [(''cats'', [\<lparr>page = 1, results = []\<rparr>, \<lparr>page = 2, results = []\<rparr>,
          \<lparr>page = 3, results = []\<rparr>, \<lparr>page = 4, results = []\<rparr>, \<lparr>page = 5, results = []\<rparr>])], s')"
    unfolding page_numbers by simp
next
  have perm: "mset [4, 2, 0, 1, 3] = mset [0..<PAGES]"
    unfolding pages_upt by simp
  have outs: "page_outcomes stub_fetch sample_libs (0::nat) ''cats'' =
      [Returned (Some sponsored_html), Returned None, Raised TimeoutError, Returned None,
       Returned None]"
    unfolding page_outcomes_def stub_run by simp
  have "\<forall>x\<in>set (page_outcomes stub_fetch sample_libs (0::nat) ''cats'').
      \<forall>pg. parses sample_libs ''cats'' pg x"
    unfolding outs by (simp add: parses_def parse_sponsored_page parse_page_absent)
  then have ok: "\<forall>p<PAGES. parses sample_libs ''cats'' (Suc p)
      (page_outcomes stub_fetch sample_libs (0::nat) ''cats'' ! p)"
    by (simp add: page_outcomes_length)
  have third: "2 < PAGES \<and> failed (page_outcomes stub_fetch sample_libs (0::nat) ''cats'' ! 2)"
    unfolding outs by (simp add: PAGES_def)
  from scrape_query_failed_pages [OF perm, of stub_fetch sample_libs 0 "''cats''"] ok
  obtain pages s' where "scrape_query stub_fetch sample_libs [4, 2, 0, 1, 3] (0::nat) ''cats''
        = Some (Inr [(''cats'', pages)], s')"
    and "length pages = PAGES"
    and "\<forall>p<PAGES. failed (page_outcomes stub_fetch sample_libs (0::nat) ''cats'' ! p) \<longrightarrow>
           pages ! p = \<lparr>page = Suc p, results = []\<rparr>"
    by blast
  with third show "\<exists>pages s'. scrape_query stub_fetch sample_libs [4, 2, 0, 1, 3] (0::nat) ''cats''
        = Some (Inr [(''cats'', pages)], s')
      \<and> length pages = 5 \<and> pages ! 2 = \<lparr>page = 3, results = []\<rparr>"
    by (auto simp: PAGES_def)
qed

text \<open>
  The claim C2 as the specification words it, a page result for every failed page, fails
  when a sibling page holds a link that \<^verbatim>\<open>urlparse\<close> rejects: the third page of the
  query failed in its fetch, and \<^verbatim>\<open>scrape_query\<close> ends with \<^verbatim>\<open>ValueError\<close>, so that the
  failed page has no page result in any document.
\<close>

theorem scrape_query_failed_sibling_counterexample:
  "failed (page_outcomes bracket_fetch sample_libs (0::nat) ''cats'' ! 2)
   \<and> scrape_query bracket_fetch sample_libs [4, 2, 0, 1, 3] (0::nat) ''cats''
       = Some (Inl ValueError, 5)"
proof -
  have perm: "mset [4, 2, 0, 1, 3] = mset [0..<PAGES]"
    unfolding pages_upt by simp
  have raised: "assemble sample_libs ''cats'' 1
      (page_outcomes bracket_fetch sample_libs (0::nat) ''cats'') = Inl ValueError"
    unfolding bracket_outcomes by (simp add: parse_bracket_page)
  from scrape_query_returns [OF perm, of bracket_fetch sample_libs 0 "''cats''"]
  have "scrape_query bracket_fetch sample_libs [4, 2, 0, 1, 3] (0::nat) ''cats''
      = Some (Inl ValueError, 5)"
    unfolding raised bracket_run by simp
  moreover have "failed (page_outcomes bracket_fetch sample_libs (0::nat) ''cats'' ! 2)"
    unfolding bracket_outcomes by simp
  ultimately show ?thesis by blast
qed

section \<open>Properties of the file name\<close>

lemma replace_char: "replace s [c] [d] = map (\<lambda>x. if x = c then d else x) s"
  by (induction s) simp_all

lemma safe_query_sanitized: "safe_query q = sanitized q"
proof -
  have "(\<lambda>c. isalnum c \<or> c \<in> set [CHR '' '', CHR ''_'']) = retained"
    by (auto simp: retained_def)
  then show ?thesis
    by (simp add: safe_query_def sanitized_def replace_char)
qed

lemma retained_without_underscore:
  assumes "CHR ''_'' \<notin> set q"
  shows "filter retained q = alnum_space_content q"
  unfolding alnum_space_content_def
proof (rule filter_cong [OF refl])
  fix c assume "c \<in> set q"
  with assms have "c \<noteq> CHR ''_''" by auto
  then show "retained c = (isalnum c \<or> c = CHR '' '')" by (simp add: retained_def)
qed

lemma underscore_not_in_content:
  "CHR ''_'' \<notin> set q \<Longrightarrow> CHR ''_'' \<notin> set (alnum_space_content q)"
  by (simp add: alnum_space_content_def)

text \<open>
  Claim C8. The identifier of a query consists of exactly its alphanumeric, space and
  underscore characters, in order, with every space written as an underscore; it is a
  function of the query text alone, so the same query has the same identifier in every
  run. Two queries whose other characters are all disallowed punctuation, that is, queries
  without an underscore, have different identifiers whenever their alphanumeric and space
  content differs.
\<close>

theorem safe_query_identifier:
  "safe_query q1 = map (\<lambda>c. if c = CHR '' '' then CHR ''_'' else c) (filter retained q1)
   \<and> (CHR ''_'' \<notin> set q1 \<and> CHR ''_'' \<notin> set q2
        \<and> alnum_space_content q1 \<noteq> alnum_space_content q2
      \<longrightarrow> safe_query q1 \<noteq> safe_query q2)"
proof (intro conjI impI)
  show "safe_query q1 = map (\<lambda>c. if c = CHR '' '' then CHR ''_'' else c) (filter retained q1)"
    using safe_query_sanitized [of q1] by (simp add: sanitized_def)
next
  let ?f = "\<lambda>c. if c = CHR '' '' then CHR ''_'' else c"
  assume a: "CHR ''_'' \<notin> set q1 \<and> CHR ''_'' \<notin> set q2
    \<and> alnum_space_content q1 \<noteq> alnum_space_content q2"
  then have u: "CHR ''_'' \<notin> set (alnum_space_content q1)" "CHR ''_'' \<notin> set (alnum_space_content q2)"
    by (simp_all add: underscore_not_in_content)
  have "inj_on ?f (set (alnum_space_content q1) \<union> set (alnum_space_content q2))"
  proof (rule inj_onI)
    fix x y
    assume "x \<in> set (alnum_space_content q1) \<union> set (alnum_space_content q2)"
      and "y \<in> set (alnum_space_content q1) \<union> set (alnum_space_content q2)"
      and "?f x = ?f y"
    with u show "x = y" by (auto split: if_splits)
  qed
  then have "map ?f (alnum_space_content q1) = map ?f (alnum_space_content q2)
      \<longleftrightarrow> alnum_space_content q1 = alnum_space_content q2"
    by (rule inj_on_map_eq_map)
  with a show "safe_query q1 \<noteq> safe_query q2"
    by (simp add: safe_query_sanitized sanitized_def retained_without_underscore)
qed

theorem safe_query_identifier_witness:
  "safe_query ''c++ tips'' = ''c_tips'' \<and> safe_query ''c++ tips'' \<noteq> safe_query ''c# tricks!''"
proof -
  note id = safe_query_identifier [of "''c++ tips''" "''c# tricks!''"]
  have "CHR ''_'' \<notin> set ''c++ tips'' \<and> CHR ''_'' \<notin> set ''c# tricks!''
    \<and> alnum_space_content ''c++ tips'' \<noteq> alnum_space_content ''c# tricks!''"
    by (simp add: alnum_space_content_def isalnum_def)
  with id have "safe_query ''c++ tips'' \<noteq> safe_query ''c# tricks!''"
    by blast
  moreover from id have "safe_query ''c++ tips'' = ''c_tips''"
    by (simp add: retained_def isalnum_def)
  ultimately show ?thesis by blast
qed

section \<open>Properties of the batch\<close>

lemma scrape_query_document:
  "scrape_query fetch L sched s query = Some (Inr data, s') \<Longrightarrow> \<exists>pages. data = [(query, pages)]"
  by (auto simp: scrape_query_def split_beta split: option.splits sum.splits)

lemma process_query_saved:
  assumes "process_query E w q = Some (None, w')"
  shows "\<exists>pages. files w' = (files w)(filename_of q \<mapsto> Complete [(q, pages)])"
proof -
  from assms obtain data s' where
    sq: "scrape_query (fetch_task (network E)) (library E) (page_sched E q) (scraper w) q
      = Some (Inr data, s')"
    by (auto simp: process_query_def split: option.splits sum.splits prod.splits)
  with assms have "files w' = (files w)(filename_of q \<mapsto> Complete data)"
    by (auto simp: process_query_def save_to_json_def split: write_outcome.splits)
  with scrape_query_document [OF sq] show ?thesis by auto
qed


lemma unretained_sanitized: "\<forall>c\<in>set q. \<not> retained c \<Longrightarrow> sanitized q = []"
  by (simp add: sanitized_def filter_empty_conv)

lemma process_query_completes:
  assumes "mset (page_sched E q) = mset [0..<PAGES]"
    and "\<forall>p<PAGES. parses (library E) q (Suc p)
           (page_outcomes (fetch_task (network E)) (library E) (scraper w) q ! p)"
    and "sink E (filename_of q) = Writes"
  shows "\<exists>w'. process_query E w q = Some (None, w')"
proof -
  from scrape_query_parsed [OF assms(1,2)] obtain pages s' where
    "scrape_query (fetch_task (network E)) (library E) (page_sched E q) (scraper w) q
      = Some (Inr [(q, pages)], s')"
    by blast
  with assms(3) show ?thesis
    by (simp add: process_query_def save_to_json_def)
qed

lemma process_query_open_fails:
  assumes "mset (page_sched E q) = mset [0..<PAGES]"
    and "\<forall>p<PAGES. parses (library E) q (Suc p)
           (page_outcomes (fetch_task (network E)) (library E) (scraper w) q ! p)"
    and "sink E (filename_of q) = OpenRaises e"
  shows "\<exists>w'. process_query E w q = Some (Some e, w') \<and> files w' = files w"
proof -
  from scrape_query_parsed [OF assms(1,2)] obtain pages s' where
    "scrape_query (fetch_task (network E)) (library E) (page_sched E q) (scraper w) q
      = Some (Inr [(q, pages)], s')"
    by blast
  with assms(3) show ?thesis
    by (simp add: process_query_def save_to_json_def)
qed

lemma sample_sched: "mset (page_sched sample_env q) = mset [0..<PAGES]"
  unfolding pages_upt by (simp add: sample_env_def)

lemma sample_parses:
  "\<forall>p<PAGES. parses (library sample_env) q (Suc p)
     (page_outcomes (fetch_task (network sample_env)) (library sample_env) (scraper w) q ! p)"
  using sample_all_failed [of "library sample_env" "scraper w" q]
  by (simp add: failed_parses)

lemma sample_saves:
  assumes "filename_of q \<noteq> ''locked.json''"
  shows "\<exists>w'. process_query sample_env w q = Some (None, w')"
proof (rule process_query_completes [OF sample_sched sample_parses])
  from assms show "sink sample_env (filename_of q) = Writes"
    by (simp add: sample_env_def)
qed

lemma sample_locked:
  assumes "filename_of q = ''locked.json''"
  shows "\<exists>w'. process_query sample_env w q = Some (Some OSError, w') \<and> files w' = files w"
proof (rule process_query_open_fails [OF sample_sched sample_parses])
  from assms show "sink sample_env (filename_of q) = OpenRaises OSError"
    by (simp add: sample_env_def)
qed

lemma sample_names:
  "filename_of ''cats'' = ''cats.json'' \<and> filename_of ''locked'' = ''locked.json''
   \<and> filename_of ''dogs'' = ''dogs.json'' \<and> filename_of ''birds'' = ''birds.json''"
  by (simp add: filename_of_def safe_query_def isalnum_def)

text \<open>
  Claim C10. A query without any alphanumeric, space or underscore character has the
  empty identifier and the file name \<^verbatim>\<open>.json\<close>; all such queries share that file, and
  when two of them are processed one after the other the file holds the document of the
  second only, no other file having been written.
\<close>

theorem unretained_queries_share_file:
  assumes "\<forall>c\<in>set q1. \<not> retained c" and "\<forall>c\<in>set q2. \<not> retained c"
  shows "safe_query q1 = [] \<and> filename_of q1 = ''.json'' \<and> filename_of q2 = filename_of q1
    \<and> (process_query E w q1 = Some (None, w1) \<and> process_query E w1 q2 = Some (None, w2)
       \<longrightarrow> (\<exists>pages. files w2 ''.json'' = Some (Complete [(q2, pages)]))
           \<and> dom (files w2) = insert ''.json'' (dom (files w)))"
proof -
  from assms have e: "safe_query q1 = []" "safe_query q2 = []"
    by (simp_all add: safe_query_sanitized unretained_sanitized)
  then have f: "filename_of q1 = ''.json''" "filename_of q2 = ''.json''"
    by (simp_all add: filename_of_def)
  have "(\<exists>pages. files w2 ''.json'' = Some (Complete [(q2, pages)]))
      \<and> dom (files w2) = insert ''.json'' (dom (files w))"
    if p: "process_query E w q1 = Some (None, w1) \<and> process_query E w1 q2 = Some (None, w2)"
  proof -
    from p process_query_saved [of E w q1 w1] f obtain pages1
      where w1: "files w1 = (files w)(''.json'' \<mapsto> Complete [(q1, pages1)])" by auto
    from p process_query_saved [of E w1 q2 w2] f obtain pages2
      where w2: "files w2 = (files w1)(''.json'' \<mapsto> Complete [(q2, pages2)])" by auto
    from w1 w2 show ?thesis by auto
  qed
  with e f show ?thesis by simp
qed

theorem unretained_queries_share_file_witness:
  "\<exists>w1 w2 pages. process_query sample_env sample_world ''???'' = Some (None, w1)
     \<and> process_query sample_env w1 ''!!'' = Some (None, w2)
     \<and> filename_of ''???'' = ''.json''
     \<and> files w2 ''.json'' = Some (Complete [(''!!'', pages)])"
proof -
  have r: "\<forall>c\<in>set ''???''. \<not> retained c" "\<forall>c\<in>set ''!!''. \<not> retained c"
    by (simp_all add: retained_def isalnum_def)
  note share = unretained_queries_share_file [OF r]
  from share have f: "filename_of ''???'' = ''.json''" "filename_of ''!!'' = ''.json''"
    by simp_all
  from sample_saves [of "''???''" sample_world] f
  obtain w1 where w1: "process_query sample_env sample_world ''???'' = Some (None, w1)"
    by auto
  from sample_saves [of "''!!''" w1] f
  obtain w2 where w2: "process_query sample_env w1 ''!!'' = Some (None, w2)"
    by auto
  from share [of sample_env sample_world w1 w2] w1 w2
  obtain pages where "files w2 ''.json'' = Some (Complete [(''!!'', pages)])"
    by blast
  with w1 w2 f show ?thesis by blast
qed






lemma main_sibling_in_time:
  "\<exists>w'. main sample_env [''locked'', ''dogs''] [0, 1] 1 sample_world = Some (Some OSError, w')
     \<and> files w' ''dogs.json'' \<noteq> None"
proof -
  from sample_locked [of "''locked''" sample_world] sample_names
  obtain w1 where w1: "process_query sample_env sample_world ''locked'' = Some (Some OSError, w1)"
    by auto
  from sample_saves [of "''dogs''" w1] sample_names
  obtain w2 where w2: "process_query sample_env w1 ''dogs'' = Some (None, w2)"
    by auto
  from process_query_saved [OF w2] sample_names have "files w2 ''dogs.json'' \<noteq> None"
    by auto
  moreover from w1 w2
  have "main sample_env [''locked'', ''dogs''] [0, 1] 1 sample_world = Some (Some OSError, w2)"
    by (simp add: main_def)
  ultimately show ?thesis by blast
qed

section \<open>Properties of the limiters\<close>

lemma count_update:
  assumes "distinct xs" and "x \<in> set xs"
  shows "length (filter (\<lambda>y. P (if y = x then v else g y)) xs) + (if P (g x) then 1 else 0)
    = length (filter (\<lambda>y. P (g y)) xs) + (if P v then 1 else 0)"
  using assms
proof (induction xs)
  case Nil
  then show ?case by simp
next
  case (Cons a xs)
  show ?case
  proof (cases "a = x")
    case True
    with Cons.prems have "x \<notin> set xs" by simp
    then have "filter (\<lambda>y. P (if y = x then v else g y)) xs = filter (\<lambda>y. P (g y)) xs"
      by (intro filter_cong) auto
    with True show ?thesis by simp
  next
    case False
    with Cons.prems have "distinct xs" "x \<in> set xs" by simp_all
    from Cons.IH [OF this] False show ?thesis by simp
  qed
qed

lemma count_active_update:
  assumes "i < n"
  shows "length (filter (\<lambda>j. (f(i := v)) j = QActive) [0..<n]) + (if f i = QActive then 1 else 0)
    = length (filter (\<lambda>j. f j = QActive) [0..<n]) + (if v = QActive then 1 else 0)"
proof -
  have "(\<lambda>j. (f(i := v)) j = QActive) = (\<lambda>j. (if j = i then v else f j) = QActive)"
    by (simp add: fun_eq_iff)
  with count_update [where xs = "[0..<n]" and x = i and P = "\<lambda>l. l = QActive" and g = f and v = v] assms show ?thesis
    by simp
qed

lemma count_flight_update:
  assumes "i < n" and "p < PAGES"
  shows "length (filter (\<lambda>(j, q). in_flight ((f(i := (f i)(p := v))) j q))
             (List.product [0..<n] [0..<PAGES]))
      + (if in_flight (f i p) then 1 else 0)
    = length (filter (\<lambda>(j, q). in_flight (f j q)) (List.product [0..<n] [0..<PAGES]))
      + (if in_flight v then 1 else 0)"
proof -
  have "(\<lambda>(j, q). in_flight ((f(i := (f i)(p := v))) j q))
      = (\<lambda>y. in_flight (if y = (i, p) then v else (\<lambda>(j, q). f j q) y))"
    by (auto simp: fun_eq_iff)
  moreover have "(\<lambda>(j, q). in_flight (f j q)) = (\<lambda>y. in_flight ((\<lambda>(j, q). f j q) y))"
    by (simp add: fun_eq_iff)
  moreover have "distinct (List.product [0..<n] [0..<PAGES])"
    by (simp add: distinct_product)
  moreover from assms have "(i, p) \<in> set (List.product [0..<n] [0..<PAGES])"
    by simp
  ultimately show ?thesis
    using count_update [where xs = "List.product [0..<n] [0..<PAGES]" and x = "(i, p)"
        and P = in_flight and g = "\<lambda>(j, q). f j q" and v = v]
    by simp
qed

lemma active_queries_update:
  assumes "i < n"
  shows "active_queries n (s\<lparr>query_sem := k, qtask := (qtask s)(i := v)\<rparr>)
      + (if qtask s i = QActive then 1 else 0)
    = active_queries n s + (if v = QActive then 1 else 0)"
  unfolding active_queries_def
  using count_active_update [OF assms, of "qtask s" v]
  by (simp del: fun_upd_apply)

lemma fetches_in_flight_update:
  assumes "i < n" and "p < PAGES"
  shows "fetches_in_flight n (s\<lparr>sem := k, ftask := (ftask s)(i := (ftask s i)(p := v))\<rparr>)
      + (if in_flight (ftask s i p) then 1 else 0)
    = fetches_in_flight n s + (if in_flight v then 1 else 0)"
  unfolding fetches_in_flight_def
  using count_flight_update [OF assms, of "ftask s" v]
  by (simp del: fun_upd_apply)

lemma step_query_inv:
  assumes "limiter_inv n s" and "i < n"
    and "(qtask s i = QActive \<and> v \<noteq> QActive \<and> k = query_sem s + 1)
       \<or> (qtask s i \<noteq> QActive \<and> v = QActive \<and> 0 < query_sem s \<and> k = query_sem s - 1)
       \<or> (qtask s i \<noteq> QActive \<and> v \<noteq> QActive \<and> k = query_sem s)"
  shows "limiter_inv n (s\<lparr>query_sem := k, qtask := (qtask s)(i := v)\<rparr>)"
proof -
  let ?s' = "s\<lparr>query_sem := k, qtask := (qtask s)(i := v)\<rparr>"
  have "fetches_in_flight n ?s' = fetches_in_flight n s" "sem ?s' = sem s" "query_sem ?s' = k"
    by (simp_all add: fetches_in_flight_def)
  with assms active_queries_update [OF assms(2), where s = s and k = k and v = v] show ?thesis
    unfolding limiter_inv_def by (auto split: if_splits)
qed

lemma step_fetch_inv:
  assumes "limiter_inv n s" and "i < n" and "p < PAGES"
    and "(in_flight (ftask s i p) \<and> \<not> in_flight v \<and> k = sem s + 1)
       \<or> (\<not> in_flight (ftask s i p) \<and> in_flight v \<and> 0 < sem s \<and> k = sem s - 1)
       \<or> (\<not> in_flight (ftask s i p) \<and> \<not> in_flight v \<and> k = sem s)"
  shows "limiter_inv n (s\<lparr>sem := k, ftask := (ftask s)(i := (ftask s i)(p := v))\<rparr>)"
proof -
  let ?s' = "s\<lparr>sem := k, ftask := (ftask s)(i := (ftask s i)(p := v))\<rparr>"
  have "active_queries n ?s' = active_queries n s" "query_sem ?s' = query_sem s" "sem ?s' = k"
    by (simp_all add: active_queries_def)
  with assms fetches_in_flight_update [OF assms(2,3), where s = s and k = k and v = v] show ?thesis
    unfolding limiter_inv_def by (auto split: if_splits)
qed

lemma step_inv:
  assumes "step n a s = Some s'" and "limiter_inv n s"
  shows "limiter_inv n s'"
proof (cases a)
  case (Enter i)
  with assms(1) have "i < n" "qtask s i = QWaiting" "0 < query_sem s"
    and "s' = s\<lparr>query_sem := query_sem s - 1, qtask := (qtask s)(i := QActive)\<rparr>"
    by (auto split: if_splits)
  with step_query_inv [OF assms(2), where i = i and v = QActive and k = "query_sem s - 1"] show ?thesis by simp
next
  case (Leave i)
  with assms(1) have "i < n" "qtask s i = QActive"
    and "s' = s\<lparr>query_sem := query_sem s + 1, qtask := (qtask s)(i := QFinished)\<rparr>"
    by (auto split: if_splits)
  with step_query_inv [OF assms(2), where i = i and v = QFinished and k = "query_sem s + 1"] show ?thesis by simp
next
  case (CancelQuery i)
  show ?thesis
  proof (cases "qtask s i = QWaiting")
    case True
    with CancelQuery assms(1) have "i < n" and "s' = s\<lparr>qtask := (qtask s)(i := QFinished)\<rparr>"
      by (auto split: if_splits)
    with True step_query_inv [OF assms(2), where i = i and v = QFinished and k = "query_sem s"] show ?thesis by simp
  next
    case False
    with CancelQuery assms(1) have "i < n" "qtask s i = QActive"
      and "s' = s\<lparr>query_sem := query_sem s + 1, qtask := (qtask s)(i := QFinished)\<rparr>"
      by (auto split: if_splits)
    with step_query_inv [OF assms(2), where i = i and v = QFinished and k = "query_sem s + 1"] show ?thesis by simp
  qed
next
  case (Acquire i p)
  with assms(1) obtain k where "ftask s i p = FReady k" "i < n" "p < PAGES" "0 < sem s"
    and "s' = s\<lparr>sem := sem s - 1, ftask := (ftask s)(i := (ftask s i)(p := FInFlight k))\<rparr>"
    by (auto split: floc.splits if_splits)
  with step_fetch_inv [OF assms(2), where i = i and p = p and v = "FInFlight k" and k = "sem s - 1"] show ?thesis by simp
next
  case (Succeed i p)
  with assms(1) obtain k where "ftask s i p = FInFlight k" "i < n" "p < PAGES"
    and "s' = s\<lparr>sem := sem s + 1, ftask := (ftask s)(i := (ftask s i)(p := FReturned))\<rparr>"
    by (auto split: floc.splits if_splits)
  with step_fetch_inv [OF assms(2), where i = i and p = p and v = FReturned and k = "sem s + 1"] show ?thesis by simp
next
  case (Fail i p)
  with assms(1) obtain k where k: "ftask s i p = FInFlight k" "i < n" "p < PAGES"
    and "s' = s\<lparr>sem := sem s + 1, ftask := (ftask s)(i := (ftask s i)
        (p := (if k < RETRIES - 1 then FBackoff k else FReturned)))\<rparr>"
    by (auto split: floc.splits if_splits)
  with step_fetch_inv [OF assms(2), where i = i and p = p and v = "if k < RETRIES - 1 then FBackoff k else FReturned" and k = "sem s + 1"]
  show ?thesis by simp
next
  case (Wake i p)
  with assms(1) obtain k where "ftask s i p = FBackoff k" "i < n" "p < PAGES"
    and "s' = s\<lparr>ftask := (ftask s)(i := (ftask s i)(p := FReady (Suc k)))\<rparr>"
    by (auto split: floc.splits if_splits)
  with step_fetch_inv [OF assms(2), where i = i and p = p and v = "FReady (Suc k)" and k = "sem s"] show ?thesis by simp
next
  case (CancelFetch i p)
  show ?thesis
  proof (cases "in_flight (ftask s i p)")
    case True
    with CancelFetch assms(1) have "i < n" "p < PAGES"
      and "s' = s\<lparr>sem := sem s + 1, ftask := (ftask s)(i := (ftask s i)(p := FReturned))\<rparr>"
      by (auto split: floc.splits if_splits)
    with True step_fetch_inv [OF assms(2), where i = i and p = p and v = FReturned and k = "sem s + 1"] show ?thesis by simp
  next
    case False
    with CancelFetch assms(1) have "i < n" "p < PAGES"
      and "s' = s\<lparr>ftask := (ftask s)(i := (ftask s i)(p := FReturned))\<rparr>"
      by (auto split: floc.splits if_splits)
    with False step_fetch_inv [OF assms(2), where i = i and p = p and v = FReturned and k = "sem s"] show ?thesis by simp
  qed
qed

lemma run_inv: "run n acts s = Some s' \<Longrightarrow> limiter_inv n s \<Longrightarrow> limiter_inv n s'"
proof (induction acts arbitrary: s)
  case Nil
  then show ?case by simp
next
  case (Cons a acts)
  from Cons.prems(1) obtain s1 where s1: "step n a s = Some s1" "run n acts s1 = Some s'"
    by (auto split: option.splits)
  from step_inv [OF s1(1) Cons.prems(2)] Cons.IH [OF s1(2)] show ?case by simp
qed

lemma init_inv: "limiter_inv n init"
  by (simp add: limiter_inv_def active_queries_def fetches_in_flight_def init_def)

text \<open>
  Claim C9. In every state that a run reaches, at most 3 queries are inside
  \<^verbatim>\<open>async with query_sem\<close> and at most 10 page fetches, over all queries, are inside
  \<^verbatim>\<open>async with sem\<close>.
\<close>

theorem limiters_never_exceeded:
  assumes "run n acts init = Some s"
  shows "active_queries n s \<le> 3 \<and> fetches_in_flight n s \<le> 10"
  using run_inv [OF assms init_inv] by (simp add: limiter_inv_def)

lemma busy_run_state:
  "\<exists>s. run 4 busy_run init = Some s \<and> sem s = 0 \<and> query_sem s = 0
     \<and> qtask s 3 = QWaiting \<and> qtask s 2 = QActive \<and> ftask s 2 0 = FReady 0"
  by (simp add: busy_run_def init_def PAGES_def)

theorem limiters_never_exceeded_witness:
  "\<exists>s. run 4 busy_run init = Some s \<and> active_queries 4 s \<le> 3 \<and> fetches_in_flight 4 s \<le> 10"
proof -
  from busy_run_state obtain s where "run 4 busy_run init = Some s" by blast
  with limiters_never_exceeded [of 4 busy_run s] show ?thesis by blast
qed

lemma run_append: "run n (xs @ ys) s = (case run n xs s of None \<Rightarrow> None | Some s' \<Rightarrow> run n ys s')"
  by (induction xs arbitrary: s) (auto split: option.splits)

lemma busy_run_blocks:
  "run 4 (busy_run @ [Enter 3]) init = None \<and> run 4 (busy_run @ [Acquire 2 0]) init = None"
proof -
  from busy_run_state obtain s where "run 4 busy_run init = Some s" "sem s = 0" "query_sem s = 0"
    "qtask s 2 = QActive" "ftask s 2 0 = FReady 0"
    by blast
  then show ?thesis by (simp add: run_append)
qed

end
